theory Spec2Isabelle
  imports Complex_Main
begin

section \<open>Binomial lattices of the FinEng pricing modules\<close>

text \<open>
  The modules \<^verbatim>\<open>binomial_rates_model_bond_pricing.py\<close> and
  \<^verbatim>\<open>BDT_rates_model_ZCB_pricing.py\<close> work on square numpy arrays of float64.
  An array is modelled by its entry function: \<open>L i j\<close> is \<^verbatim>\<open>L[i, j]\<close>, row \<open>i\<close>,
  column \<open>j\<close>, and an entry outside the array's shape is 0. Float64 arithmetic is
  idealised by the reals: rounding is not modelled, and a quotient whose divisor is zero
  (\<^verbatim>\<open>inf\<close> or \<^verbatim>\<open>nan\<close> in numpy, with a warning and no exception) has no counterpart
  in the model. Horizons and exercise dates are natural numbers. What numpy raises is an
  error value: \<open>IndexError\<close> for an index outside an array, \<open>ValueError\<close> for shapes
  that do not fit or an interpolation without sample points.
\<close>

type_synonym lattice = "nat \<Rightarrow> nat \<Rightarrow> real"

datatype error = IndexError | ValueError

text \<open>\<^verbatim>\<open>np.zeros((n, n))\<close>\<close>

definition zeros :: lattice where
  "zeros = (\<lambda>i j. 0)"

text \<open>
  The slice assignment \<^verbatim>\<open>L[:i+1, i] = v\<close>: rows \<open>0..i\<close> of column \<open>i\<close> take the
  entries of the vector \<open>v\<close>, every other entry is kept.
\<close>

definition set_col :: "lattice \<Rightarrow> nat \<Rightarrow> (nat \<Rightarrow> real) \<Rightarrow> lattice" where
  "set_col L i v = (\<lambda>a b. if b = i \<and> a \<le> i then v a else L a b)"

subsection \<open>Rate lattice of the simple model\<close>

text \<open>
  \<^verbatim>\<open>rates_tree(r, u, d, t)\<close> of the binomial module. Row 0 is seeded with
  \<^verbatim>\<open>r*(u**linspace(0, t, t+1))\<close>; the loop over \<open>i = 1..t\<close> assigns
  \<^verbatim>\<open>rt[i, i:] = d*rt[i-1, i-1:t]\<close>, that is \<open>rt[i, b] = d * rt[i-1, b-1]\<close> for
  \<open>i \<le> b \<le> t\<close>.
\<close>

definition rates_row :: "real \<Rightarrow> nat \<Rightarrow> nat \<Rightarrow> lattice \<Rightarrow> lattice" where
  "rates_row d t i rt =
     (\<lambda>a b. if a = i \<and> i \<le> b \<and> b \<le> t then d * rt (i - 1) (b - 1) else rt a b)"

definition rates_tree :: "real \<Rightarrow> real \<Rightarrow> real \<Rightarrow> nat \<Rightarrow> lattice" where
  "rates_tree r u d t =
     fold (rates_row d t) [1..<t + 1]
       (\<lambda>a b. if a = 0 \<and> b \<le> t then r * u ^ b else zeros a b)"

subsection \<open>Elementary price lattice\<close>

text \<open>The single-entry assignment \<^verbatim>\<open>L[a, b] = v\<close>.\<close>

definition set_entry :: "lattice \<Rightarrow> nat \<Rightarrow> nat \<Rightarrow> real \<Rightarrow> lattice" where
  "set_entry L a b v = (\<lambda>a' b'. if a' = a \<and> b' = b then v else L a' b')"

text \<open>
  Body of the first loop of \<^verbatim>\<open>elementary_price_tree\<close>, for \<open>i = 1..t\<close>:
  \<^verbatim>\<open>ept[0, i] = qu*(ept[0,i-1]/(1+rt[0,i-1]))\<close> and then
  \<^verbatim>\<open>ept[i, i] = qd*(ept[i-1,i-1]/(1+rt[i-1,i-1]))\<close>.
\<close>

definition ept_edges :: "lattice \<Rightarrow> real \<Rightarrow> real \<Rightarrow> nat \<Rightarrow> lattice \<Rightarrow> lattice" where
  "ept_edges rt qu qd i ept =
     (let ept1 = set_entry ept 0 i (qu * (ept 0 (i - 1) / (1 + rt 0 (i - 1))))
      in set_entry ept1 i i (qd * (ept1 (i - 1) (i - 1) / (1 + rt (i - 1) (i - 1)))))"

text \<open>
  Body of the second loop, for \<open>i = 1..t\<close>: the rows \<open>1..i-1\<close> of column \<open>i\<close> take
  \<^verbatim>\<open>qu*(1/(1+rt[0:i-1,i-1]))*ept[0:i-1,i-1] + qd*(1/(1+rt[1:i,i-1]))*ept[1:i,i-1]\<close>.
\<close>

definition ept_interior :: "lattice \<Rightarrow> real \<Rightarrow> real \<Rightarrow> nat \<Rightarrow> lattice \<Rightarrow> lattice" where
  "ept_interior rt qu qd i ept =
     (\<lambda>a b. if b = i \<and> 1 \<le> a \<and> a < i
            then qu * (1 / (1 + rt (a - 1) (i - 1))) * ept (a - 1) (i - 1)
                 + qd * (1 / (1 + rt a (i - 1))) * ept a (i - 1)
            else ept a b)"

text \<open>
  The two loops over a given rate lattice, starting from \<^verbatim>\<open>ept[0,0] = 1\<close>. Both modules
  have this code, on their own rate lattice.
\<close>

definition ept_loops :: "lattice \<Rightarrow> nat \<Rightarrow> real \<Rightarrow> real \<Rightarrow> lattice" where
  "ept_loops rt t qu qd =
     fold (ept_interior rt qu qd) [1..<t + 1]
       (fold (ept_edges rt qu qd) [1..<t + 1] (set_entry zeros 0 0 1))"

text \<open>
  \<^verbatim>\<open>elementary_price_tree(r, u, d, t, qu, qd)\<close> of the binomial module. With \<open>t = 0\<close>
  the call \<^verbatim>\<open>rates_tree(r, u, d, -1)\<close> assigns row 0 of an empty array: IndexError.
\<close>

definition elementary_price_tree ::
  "real \<Rightarrow> real \<Rightarrow> real \<Rightarrow> nat \<Rightarrow> real \<Rightarrow> real \<Rightarrow> error + lattice" where
  "elementary_price_tree r u d t qu qd =
     (if t = 0 then Inl IndexError
      else Inr (ept_loops (rates_tree r u d (t - 1)) t qu qd))"

text \<open>The sum of column \<open>j\<close> of a \<open>(t+1) \<times> (t+1)\<close> array, as \<^verbatim>\<open>np.sum(L, axis = 0)[j]\<close>.\<close>

definition column_sum :: "lattice \<Rightarrow> nat \<Rightarrow> nat \<Rightarrow> real" where
  "column_sum L t j = (\<Sum>i \<leftarrow> [0..<t + 1]. L i j)"

subsection \<open>Instrument pricers\<close>

text \<open>
  The expression \<^verbatim>\<open>(1/(1+rt[:i+1,i]))*(qu*L[:i+1, i+1] + qd*L[1:i+2, i+1])\<close> that every
  backward loop assigns to column \<open>i\<close>, at row \<open>a\<close>.
\<close>

definition discounted :: "lattice \<Rightarrow> real \<Rightarrow> real \<Rightarrow> lattice \<Rightarrow> nat \<Rightarrow> nat \<Rightarrow> real" where
  "discounted rt qu qd L i a =
     (1 / (1 + rt a i)) * (qu * L a (i + 1) + qd * L (a + 1) (i + 1))"

text \<open>The assignment \<^verbatim>\<open>L[:, -1] = v\<close> on an array with last column \<open>n\<close> and rows \<open>0..n\<close>.\<close>

definition last_col :: "nat \<Rightarrow> (nat \<Rightarrow> real) \<Rightarrow> lattice" where
  "last_col n v = (\<lambda>a b. if b = n \<and> a \<le> n then v a else zeros a b)"

text \<open>
  \<^verbatim>\<open>zcb_price(face_value, t, r, u, d, qu, qd)\<close>: the loop runs \<open>i = t-1, ..., 0\<close> and the
  function returns the whole array.
\<close>

definition zcb_price ::
  "real \<Rightarrow> nat \<Rightarrow> real \<Rightarrow> real \<Rightarrow> real \<Rightarrow> real \<Rightarrow> real \<Rightarrow> error + lattice" where
  "zcb_price face_value t r u d qu qd =
     (if t = 0 then Inl IndexError
      else let rt = rates_tree r u d (t - 1)
           in Inr (fold (\<lambda>i L. set_col L i (discounted rt qu qd L i)) (rev [0..<t])
                     (last_col t (\<lambda>a. face_value))))"

text \<open>\<^verbatim>\<open>cb_price(face_value, t, c, r, u, d, qu, qd)\<close> returns the entry \<open>[0,0]\<close>.\<close>

definition cb_lattice :: "real \<Rightarrow> nat \<Rightarrow> real \<Rightarrow> lattice \<Rightarrow> real \<Rightarrow> real \<Rightarrow> lattice" where
  "cb_lattice face_value t c rt qu qd =
     fold (\<lambda>i L. set_col L i (\<lambda>a. face_value * c + discounted rt qu qd L i a)) (rev [0..<t])
       (last_col t (\<lambda>a. (1 + c) * face_value))"

definition cb_price ::
  "real \<Rightarrow> nat \<Rightarrow> real \<Rightarrow> real \<Rightarrow> real \<Rightarrow> real \<Rightarrow> real \<Rightarrow> real \<Rightarrow> error + real" where
  "cb_price face_value t c r u d qu qd =
     (if t = 0 then Inl IndexError
      else Inr (cb_lattice face_value t c (rates_tree r u d (t - 1)) qu qd 0 0))"

text \<open>
  The array \<^verbatim>\<open>cb_lattice\<close> of \<^verbatim>\<open>cb_forward_price\<close> after its two loops: coupons for
  \<open>i = t-1, ..., ft+1\<close>, none for \<open>i = ft, ..., 0\<close>.
\<close>

definition cb_forward_lattice ::
  "real \<Rightarrow> nat \<Rightarrow> nat \<Rightarrow> real \<Rightarrow> lattice \<Rightarrow> real \<Rightarrow> real \<Rightarrow> lattice" where
  "cb_forward_lattice face_value ft t c rt qu qd =
     fold (\<lambda>i L. set_col L i (discounted rt qu qd L i)) (rev [0..<ft + 1])
       (fold (\<lambda>i L. set_col L i (\<lambda>a. face_value * c + discounted rt qu qd L i a))
          (rev [ft + 1..<t])
          (last_col t (\<lambda>a. (1 + c) * face_value)))"

text \<open>
  \<^verbatim>\<open>cb_forward_price(face_value, ft, t, c, r, u, d, qu, qd)\<close>. The second loop reads
  \<^verbatim>\<open>rt[:ft+1, ft]\<close>, an IndexError when \<open>ft \<ge> t\<close>. The last line divides the scalar
  \<^verbatim>\<open>cb_lattice[0,0]\<close> by what \<^verbatim>\<open>zcb_price(1, ft, r, u, d, qu, qd)\<close> returns, the
  \<open>(ft+1) \<times> (ft+1)\<close> array: numpy broadcasts, and the result is the array of the quotients.
\<close>

definition cb_forward_price ::
  "real \<Rightarrow> nat \<Rightarrow> nat \<Rightarrow> real \<Rightarrow> real \<Rightarrow> real \<Rightarrow> real \<Rightarrow> real \<Rightarrow> real \<Rightarrow> error + lattice" where
  "cb_forward_price face_value ft t c r u d qu qd =
     (if t = 0 \<or> t \<le> ft then Inl IndexError
      else let cb = cb_forward_lattice face_value ft t c (rates_tree r u d (t - 1)) qu qd
           in case zcb_price 1 ft r u d qu qd of
                Inl e \<Rightarrow> Inl e
              | Inr zcb \<Rightarrow> Inr (\<lambda>i j. if i \<le> ft \<and> j \<le> ft then cb 0 0 / zcb i j else 0))"

text \<open>
  The array \<^verbatim>\<open>cb_lattice\<close> of \<^verbatim>\<open>cb_futures_price\<close>: coupons for \<open>i = t-1, ..., ft+1\<close>,
  column \<open>ft\<close> discounted, columns \<open>ft-1, ..., 0\<close> the plain
  \<^verbatim>\<open>qu*L[:i+1, i+1] + qd*L[1:i+2, i+1]\<close>.
\<close>

definition cb_futures_lattice ::
  "real \<Rightarrow> nat \<Rightarrow> nat \<Rightarrow> real \<Rightarrow> lattice \<Rightarrow> real \<Rightarrow> real \<Rightarrow> lattice" where
  "cb_futures_lattice face_value ft t c rt qu qd =
     (let L1 = fold (\<lambda>i L. set_col L i (\<lambda>a. face_value * c + discounted rt qu qd L i a))
                 (rev [ft + 1..<t])
                 (last_col t (\<lambda>a. (1 + c) * face_value));
          L2 = set_col L1 ft (discounted rt qu qd L1 ft)
      in fold (\<lambda>i L. set_col L i (\<lambda>a. qu * L a (i + 1) + qd * L (a + 1) (i + 1)))
           (rev [0..<ft]) L2)"

definition cb_futures_price ::
  "real \<Rightarrow> nat \<Rightarrow> nat \<Rightarrow> real \<Rightarrow> real \<Rightarrow> real \<Rightarrow> real \<Rightarrow> real \<Rightarrow> real \<Rightarrow> error + real" where
  "cb_futures_price face_value ft t c r u d qu qd =
     (if t = 0 \<or> t \<le> ft then Inl IndexError
      else Inr (cb_futures_lattice face_value ft t c (rates_tree r u d (t - 1)) qu qd 0 0))"

text \<open>
  \<^verbatim>\<open>caplet_price\<close> and \<^verbatim>\<open>floorlet_price\<close>: a \<open>t \<times> t\<close> array, last column \<open>t-1\<close>
  set from the rates of that column, loop over \<open>i = t-2, ..., 0\<close>.
\<close>

definition caplet_price ::
  "real \<Rightarrow> real \<Rightarrow> nat \<Rightarrow> real \<Rightarrow> real \<Rightarrow> real \<Rightarrow> real \<Rightarrow> real \<Rightarrow> error + real" where
  "caplet_price notional_value c t r u d qu qd =
     (if t = 0 then Inl IndexError
      else let rt = rates_tree r u d (t - 1)
           in Inr (fold (\<lambda>i L. set_col L i (discounted rt qu qd L i)) (rev [0..<t - 1])
                     (last_col (t - 1)
                        (\<lambda>a. notional_value * max (rt a (t - 1) - c) 0 / (1 + rt a (t - 1))))
                     0 0))"

definition floorlet_price ::
  "real \<Rightarrow> real \<Rightarrow> nat \<Rightarrow> real \<Rightarrow> real \<Rightarrow> real \<Rightarrow> real \<Rightarrow> real \<Rightarrow> error + real" where
  "floorlet_price notional_value c t r u d qu qd =
     (if t = 0 then Inl IndexError
      else let rt = rates_tree r u d (t - 1)
           in Inr (fold (\<lambda>i L. set_col L i (discounted rt qu qd L i)) (rev [0..<t - 1])
                     (last_col (t - 1)
                        (\<lambda>a. notional_value * max (c - rt a (t - 1)) 0 / (1 + rt a (t - 1))))
                     0 0))"

text \<open>
  The loop body of \<^verbatim>\<open>swap_price\<close> and of the first loop of \<^verbatim>\<open>swaption_price\<close>:
  \<^verbatim>\<open>(1/(1 + rt[:i+1, i]))*((rt[:i+1,i] - c*np.ones(i+1)) + qu*L[:i+1, i+1] + qd*L[1:i+2, i+1])\<close>.
\<close>

definition swap_step :: "lattice \<Rightarrow> real \<Rightarrow> real \<Rightarrow> real \<Rightarrow> lattice \<Rightarrow> nat \<Rightarrow> nat \<Rightarrow> real" where
  "swap_step rt c qu qd L i a =
     (1 / (1 + rt a i)) * ((rt a i - c) + qu * L a (i + 1) + qd * L (a + 1) (i + 1))"

definition swap_price ::
  "real \<Rightarrow> real \<Rightarrow> nat \<Rightarrow> real \<Rightarrow> real \<Rightarrow> real \<Rightarrow> real \<Rightarrow> real \<Rightarrow> error + real" where
  "swap_price notional_value c t r u d qu qd =
     (if t = 0 then Inl IndexError
      else let rt = rates_tree r u d (t - 1)
           in Inr (notional_value *
                   fold (\<lambda>i L. set_col L i (swap_step rt c qu qd L i)) (rev [0..<t - 1])
                     (last_col (t - 1) (\<lambda>a. (rt a (t - 1) - c) / (1 + rt a (t - 1))))
                     0 0))"

text \<open>
  \<^verbatim>\<open>swaption_price(notional_value, ot, c, t, r, u, d, qu, qd)\<close>: the swap loop for
  \<open>i = t-2, ..., ot\<close>, then \<^verbatim>\<open>L[:ot+1, ot] = np.maximum(L[:ot+1, ot], 0)\<close> (an IndexError
  when \<open>ot \<ge> t\<close>), then plain discounting for \<open>i = ot-1, ..., 0\<close>.
\<close>

definition swaption_price ::
  "real \<Rightarrow> nat \<Rightarrow> real \<Rightarrow> nat \<Rightarrow> real \<Rightarrow> real \<Rightarrow> real \<Rightarrow> real \<Rightarrow> real \<Rightarrow> error + real" where
  "swaption_price notional_value ot c t r u d qu qd =
     (if t = 0 \<or> t \<le> ot then Inl IndexError
      else let rt = rates_tree r u d (t - 1);
               L1 = fold (\<lambda>i L. set_col L i (swap_step rt c qu qd L i)) (rev [ot..<t - 1])
                      (last_col (t - 1) (\<lambda>a. (rt a (t - 1) - c) / (1 + rt a (t - 1))));
               L2 = set_col L1 ot (\<lambda>a. max (L1 a ot) 0)
           in Inr (notional_value *
                   fold (\<lambda>i L. set_col L i (discounted rt qu qd L i)) (rev [0..<ot]) L2 0 0))"

text \<open>
  Reading one entry of a returned array, \<^verbatim>\<open>f(...)[i, j]\<close>; an error is passed on.
\<close>

definition entry :: "error + lattice \<Rightarrow> nat \<Rightarrow> nat \<Rightarrow> error + real" where
  "entry R i j = (case R of Inl e \<Rightarrow> Inl e | Inr L \<Rightarrow> Inr (L i j))"

subsection \<open>The Black-Derman-Toy module\<close>

text \<open>
  \<^verbatim>\<open>rates_tree(a, b, t)\<close> of the BDT module. For \<open>i = 0..t\<close> the rows \<open>0..i\<close> of column
  \<open>i\<close> take \<^verbatim>\<open>a[i]*np.exp(b*(np.ones(i+1).cumsum() - 1)[::-1])\<close>; the reversed vector is
  \<open>i, i-1, ..., 0\<close>, so row \<open>k\<close> has the exponent \<open>b * (i - k)\<close>. Reading \<^verbatim>\<open>a[i]\<close> with
  \<open>i \<ge> len(a)\<close> raises IndexError. The function returns \<^verbatim>\<open>rt/100\<close>.
\<close>

definition rates_tree_BDT :: "real list \<Rightarrow> real \<Rightarrow> nat \<Rightarrow> error + lattice" where
  "rates_tree_BDT a b t =
     (if length a < t + 1 then Inl IndexError
      else let rt = fold (\<lambda>i rt. set_col rt i (\<lambda>k. a ! i * exp (b * real (i - k))))
                      [0..<t + 1] zeros
           in Inr (\<lambda>i j. rt i j / 100))"

text \<open>
  \<^verbatim>\<open>elementary_price_tree(a, b, t, qu)\<close> of the BDT module: \<^verbatim>\<open>qd = 1 - qu\<close>, then the
  same two loops. With \<open>t = 0\<close> the call \<^verbatim>\<open>rates_tree(a, b, -1)\<close> returns an empty array
  without reading \<^verbatim>\<open>a\<close>, and both loops are empty.
\<close>

definition elementary_price_tree_BDT ::
  "real list \<Rightarrow> real \<Rightarrow> nat \<Rightarrow> real \<Rightarrow> error + lattice" where
  "elementary_price_tree_BDT a b t qu =
     (let qd = 1 - qu
      in if t = 0 then Inr (ept_loops zeros 0 qu qd)
         else case rates_tree_BDT a b (t - 1) of
                Inl e \<Rightarrow> Inl e
              | Inr rt \<Rightarrow> Inr (ept_loops rt t qu qd))"

text \<open>\<^verbatim>\<open>ZCB_prices(a, b, t, qu)\<close>: \<^verbatim>\<open>np.sum(ept, axis = 0)[1:]\<close>.\<close>

definition ZCB_prices :: "real list \<Rightarrow> real \<Rightarrow> nat \<Rightarrow> real \<Rightarrow> error + real list" where
  "ZCB_prices a b t qu =
     (case elementary_price_tree_BDT a b t qu of
        Inl e \<Rightarrow> Inl e
      | Inr ept \<Rightarrow> Inr (map (column_sum ept t) [1..<t + 1]))"

text \<open>
  \<^verbatim>\<open>BDT_spot_rates(a, b, t, qu)\<close>: \<^verbatim>\<open>np.power(1/zcb, 1/(np.ones(t).cumsum())) - 1\<close>. The
  real power \<open>powr\<close> agrees with \<^verbatim>\<open>np.power\<close> on a positive base.
\<close>

definition BDT_spot_rates :: "real list \<Rightarrow> real \<Rightarrow> nat \<Rightarrow> real \<Rightarrow> error + real list" where
  "BDT_spot_rates a b t qu =
     (case ZCB_prices a b t qu of
        Inl e \<Rightarrow> Inl e
      | Inr zcb \<Rightarrow> Inr (map (\<lambda>(z, n). (1 / z) powr (1 / real n) - 1) (zip zcb [1..<t + 1])))"

text \<open>
  \<^verbatim>\<open>objective(a, b, t, qu, mr)\<close>: \<^verbatim>\<open>np.sum(np.power(100*(mr - BDT_spot_rates(a,b,t,qu)), 2))\<close>.
  The difference of two vectors of different lengths, neither of length 1, is a ValueError.
\<close>

definition objective :: "real list \<Rightarrow> real \<Rightarrow> nat \<Rightarrow> real \<Rightarrow> real list \<Rightarrow> error + real" where
  "objective a b t qu mr =
     (case BDT_spot_rates a b t qu of
        Inl e \<Rightarrow> Inl e
      | Inr sr \<Rightarrow>
          if length mr = length sr then Inr (\<Sum>(m, s) \<leftarrow> zip mr sr. (100 * (m - s)) ^ 2)
          else if length mr = 1 then Inr (\<Sum>s \<leftarrow> sr. (100 * (hd mr - s)) ^ 2)
          else if length sr = 1 then Inr (\<Sum>m \<leftarrow> mr. (100 * (m - hd sr)) ^ 2)
          else Inl ValueError)"

text \<open>
  The result object of \<^verbatim>\<open>scipy.optimize.minimize\<close>: the fields \<^verbatim>\<open>x\<close>, \<^verbatim>\<open>success\<close> and
  \<^verbatim>\<open>message\<close>. The minimizer itself is a parameter of the model: a function of the
  objective and of the initial guess.
\<close>

record optimize_result =
  res_x :: "real list"
  res_success :: bool
  res_message :: string

type_synonym minimizer = "(real list \<Rightarrow> error + real) \<Rightarrow> real list \<Rightarrow> optimize_result"

text \<open>
  The calibration of the module script, for its constants \<open>b\<close>, \<open>t\<close>, \<open>qu\<close> and the market
  rates \<open>mr\<close>: \<^verbatim>\<open>a = 5*np.ones(t)\<close>, \<^verbatim>\<open>res = minimize(objective, a, args=(b, t, qu, mr))\<close>,
  \<^verbatim>\<open>optimal_a = res.x\<close>.
\<close>

definition res :: "minimizer \<Rightarrow> real \<Rightarrow> nat \<Rightarrow> real \<Rightarrow> real list \<Rightarrow> optimize_result" where
  "res minimize b t qu mr =
     (let a = replicate t 5
      in minimize (\<lambda>a. objective a b t qu mr) a)"

definition optimal_a :: "minimizer \<Rightarrow> real \<Rightarrow> nat \<Rightarrow> real \<Rightarrow> real list \<Rightarrow> real list" where
  "optimal_a minimize b t qu mr = res_x (res minimize b t qu mr)"

text \<open>The script then prices: \<^verbatim>\<open>zcb = face_value*ZCB_prices(optimal_a, b, t, qu)\<close>.\<close>

definition script_zcb ::
  "minimizer \<Rightarrow> real \<Rightarrow> nat \<Rightarrow> real \<Rightarrow> real \<Rightarrow> real list \<Rightarrow> error + real list" where
  "script_zcb minimize b t qu face_value mr =
     (case ZCB_prices (optimal_a minimize b t qu mr) b t qu of
        Inl e \<Rightarrow> Inl e
      | Inr zcb \<Rightarrow> Inr (map (\<lambda>z. face_value * z) zcb))"

text \<open>
  A minimizer that gives up at once: it returns its initial guess, with the success flag
  false and the message scipy's BFGS gives on precision loss.
\<close>

definition failing_minimize :: minimizer where
  "failing_minimize f a =
     \<lparr>res_x = a, res_success = False,
      res_message = ''Desired error not necessarily achieved due to precision loss.''\<rparr>"

subsection \<open>Market rates\<close>

text \<open>
  \<^verbatim>\<open>np.interp(x, xp, fp)\<close> at one point \<open>x\<close>, the sample points given as the pairs
  \<open>(xp[k], fp[k])\<close> with increasing \<open>xp\<close>: the first value below the first point, the last
  value above the last point, and \<^verbatim>\<open>slope*(x - xp[k]) + fp[k]\<close> between two points.
  numpy rejects an empty list of sample points; the caller below returns that error
  before it interpolates.
\<close>

fun np_interp :: "(real \<times> real) list \<Rightarrow> real \<Rightarrow> real" where
  "np_interp [] x = 0"
| "np_interp [(x0, y0)] x = y0"
| "np_interp ((x0, y0) # (x1, y1) # ps) x =
     (if x \<le> x0 then y0
      else if x < x1 then (y1 - y0) / (x1 - x0) * (x - x0) + y0
      else np_interp ((x1, y1) # ps) x)"

definition fred_yield_yrs :: "nat list" where
  "fred_yield_yrs = [1, 2, 3, 5, 7, 10, 20, 30]"

text \<open>
  \<^verbatim>\<open>load_market_rates(t)\<close>. The data provider is the parameter \<open>fred\<close>: \<open>fred x\<close> is
  \<^verbatim>\<open>fred.get_series('DGS' + str(x)).iloc[-1]\<close>, the latest yield of tenor \<open>x\<close>. The list
  \<^verbatim>\<open>linear_int\<close> keeps the years \<open>x\<close> of \<open>1..30\<close> with \<^verbatim>\<open>x not in fred_yields\<close> and
  \<open>x \<le> t\<close>. \<^verbatim>\<open>np.interp\<close> on no sample points (\<open>t = 0\<close>) raises ValueError.
\<close>

definition load_market_rates :: "(nat \<Rightarrow> real) \<Rightarrow> nat \<Rightarrow> error + real list" where
  "load_market_rates fred t =
     (let fred_yield_yrs_upto_t = filter (\<lambda>x. x \<le> t) fred_yield_yrs;
          fred_yields = map fred fred_yield_yrs_upto_t;
          linear_int = filter (\<lambda>x. real x \<notin> set fred_yields \<and> x \<le> t) [1..<31]
      in if fred_yield_yrs_upto_t = [] then Inl ValueError
         else Inr (map (\<lambda>x. np_interp (zip (map real fred_yield_yrs_upto_t) fred_yields) (real x))
                     linear_int))"

text \<open>
  Two yield curves, in percent: a rising one whose yields all lie below 1, and a flat one
  at 3.
\<close>

definition sample_yields :: "nat \<Rightarrow> real" where
  "sample_yields x = real x / 40"

definition flat_yields :: "nat \<Rightarrow> real" where
  "flat_yields x = 3"

section \<open>Properties\<close>

lemma rates_fold_entries:
  "fold (rates_row d t) [Suc 0..<Suc n] (\<lambda>a b. if a = 0 \<and> b \<le> t then r * u ^ b else zeros a b) i j =
     (if i \<le> n \<and> i \<le> j \<and> j \<le> t then r * u ^ (j - i) * d ^ i else 0)"
proof (induction n arbitrary: i j)
  case 0
  show ?case by (simp add: zeros_def)
next
  case (Suc n)
  let ?L0 = "\<lambda>a b. if a = 0 \<and> b \<le> t then r * u ^ b else zeros a b"
  let ?F = "fold (rates_row d t) [Suc 0..<Suc n] ?L0"
  have step: "fold (rates_row d t) [Suc 0..<Suc (Suc n)] ?L0 = rates_row d t (Suc n) ?F"
    by (simp del: upt_Suc add: upt_Suc_append)
  show ?case
  proof (cases "i = Suc n \<and> Suc n \<le> j \<and> j \<le> t")
    case True
    then have ij: "i = Suc n" "Suc n \<le> j" "j \<le> t" by auto
    have "rates_row d t (Suc n) ?F i j = d * ?F n (j - 1)"
      using ij by (simp add: rates_row_def)
    also have "?F n (j - 1) = r * u ^ (j - 1 - n) * d ^ n"
      using ij by (subst Suc.IH) auto
    also have "j - 1 - n = j - i"
      using ij by auto
    finally show ?thesis
      unfolding step using ij by simp
  next
    case False
    then have "rates_row d t (Suc n) ?F i j = ?F i j"
      by (auto simp add: rates_row_def)
    also have "\<dots> = (if i \<le> n \<and> i \<le> j \<and> j \<le> t then r * u ^ (j - i) * d ^ i else 0)"
      by (rule Suc.IH)
    finally show ?thesis
      unfolding step using False by auto
  qed
qed

text \<open>
  C5. The simple-model rate lattice has entry \<open>r * u^(j-i) * d^i\<close> at every position
  \<open>(i, j)\<close> with \<open>i \<le> j \<le> t\<close>, and zero at every position with \<open>i > j\<close>.
\<close>

theorem rates_tree_entries:
  "(i \<le> j \<and> j \<le> t \<longrightarrow> rates_tree r u d t i j = r * u ^ (j - i) * d ^ i) \<and>
   (j < i \<longrightarrow> rates_tree r u d t i j = 0)"
  unfolding rates_tree_def by (simp add: rates_fold_entries del: upt_Suc)

theorem rates_tree_entries_witness:
  "rates_tree (1/20) (11/10) (9/10) 3 1 2 = (1/20) * (11/10) ^ (2 - 1) * (9/10) ^ 1 \<and>
   rates_tree (1/20) (11/10) (9/10) 3 2 1 = 0"
  using rates_tree_entries [of 1 2 3 "1/20" "11/10" "9/10"]
        rates_tree_entries [of 2 1 3 "1/20" "11/10" "9/10"]
  by simp

subsection \<open>Backward loops over columns\<close>

text \<open>
  A backward loop assigns column \<open>i\<close> from column \<open>i + 1\<close>, for \<open>i = hi-1, ..., lo\<close>.
  Entries outside the rows \<open>0..i\<close> of these columns keep their value; an entry inside
  satisfies the loop body's equation on the final array.
\<close>

lemma fold_set_col_keep:
  "\<not> (lo \<le> b \<and> b < hi \<and> a \<le> b) \<Longrightarrow>
   fold (\<lambda>i L. set_col L i (g L i)) (rev [lo..<hi]) L0 a b = L0 a b"
proof (induction hi arbitrary: L0)
  case 0
  show ?case by simp
next
  case (Suc hi)
  show ?case
  proof (cases "lo \<le> hi")
    case False
    then show ?thesis by simp
  next
    case True
    have "fold (\<lambda>i L. set_col L i (g L i)) (rev [lo..<Suc hi]) L0 a b =
          fold (\<lambda>i L. set_col L i (g L i)) (rev [lo..<hi]) (set_col L0 hi (g L0 hi)) a b"
      using True by simp
    also have "\<dots> = set_col L0 hi (g L0 hi) a b"
      using Suc.prems by (intro Suc.IH) auto
    also have "\<dots> = L0 a b"
      using Suc.prems True by (auto simp add: set_col_def)
    finally show ?thesis .
  qed
qed

lemma fold_set_col:
  assumes dep: "\<And>i L L'. (\<And>a. L a (Suc i) = L' a (Suc i)) \<Longrightarrow> g L i = g L' i"
    and range: "lo \<le> b" "b < hi" "a \<le> b"
  shows "fold (\<lambda>i L. set_col L i (g L i)) (rev [lo..<hi]) L0 a b =
           g (fold (\<lambda>i L. set_col L i (g L i)) (rev [lo..<hi]) L0) b a"
  using range
proof (induction hi arbitrary: L0)
  case 0
  then show ?case by simp
next
  case (Suc hi)
  let ?f = "\<lambda>i L. set_col L i (g L i)"
  let ?L1 = "set_col L0 hi (g L0 hi)"
  let ?F = "fold ?f (rev [lo..<hi]) ?L1"
  from Suc.prems have lo: "lo \<le> hi" by simp
  have unfold: "fold ?f (rev [lo..<Suc hi]) L0 = ?F"
    using lo by simp
  show ?case
  proof (cases "b = hi")
    case True
    have "?F a' (Suc hi) = L0 a' (Suc hi)" for a'
    proof -
      have "?F a' (Suc hi) = ?L1 a' (Suc hi)"
        by (rule fold_set_col_keep) simp
      then show ?thesis by (simp add: set_col_def)
    qed
    then have top: "g ?F hi = g L0 hi"
      by (rule dep)
    have "?F a hi = ?L1 a hi"
      by (rule fold_set_col_keep) simp
    also have "\<dots> = g L0 hi a"
      using Suc.prems True by (simp add: set_col_def)
    finally show ?thesis
      unfolding unfold using True top by simp
  next
    case False
    with Suc.prems have "b < hi" by simp
    with Suc.prems have "?F a b = g ?F b a"
      by (intro Suc.IH) auto
    then show ?thesis
      unfolding unfold .
  qed
qed

lemma discounted_dep:
  "(\<And>a. L a (Suc i) = L' a (Suc i)) \<Longrightarrow> discounted rt qu qd L i = discounted rt qu qd L' i"
  by (rule ext) (simp add: discounted_def)

lemma coupon_dep:
  "(\<And>a. L a (Suc i) = L' a (Suc i)) \<Longrightarrow>
   (\<lambda>a. k + discounted rt qu qd L i a) = (\<lambda>a. k + discounted rt qu qd L' i a)"
  by (rule ext) (simp add: discounted_def)

lemma plain_dep:
  "(\<And>a. L a (Suc i) = L' a (Suc i)) \<Longrightarrow>
   (\<lambda>a. qu * L a (i + 1) + qd * L (a + 1) (i + 1)) = (\<lambda>a. qu * L' a (i + 1) + qd * L' (a + 1) (i + 1))"
  by (rule ext) simp

lemma futures_above:
  assumes "ft \<le> j"
  shows "cb_futures_lattice fv ft t c rt qu qd i j = cb_forward_lattice fv ft t c rt qu qd i j"
proof -
  let ?L1 = "fold (\<lambda>i L. set_col L i (\<lambda>a. fv * c + discounted rt qu qd L i a))
               (rev [ft + 1..<t]) (last_col t (\<lambda>a. (1 + c) * fv))"
  let ?FWD = "fold (\<lambda>i L. set_col L i (discounted rt qu qd L i)) (rev [0..<ft + 1]) ?L1"
  have fut: "cb_futures_lattice fv ft t c rt qu qd i j = set_col ?L1 ft (discounted rt qu qd ?L1 ft) i j"
    unfolding cb_futures_lattice_def Let_def
    using assms by (intro fold_set_col_keep) simp
  have fwd: "cb_forward_lattice fv ft t c rt qu qd = ?FWD"
    by (simp add: cb_forward_lattice_def)
  show ?thesis
  proof (cases "j = ft \<and> i \<le> ft")
    case True
    have "?FWD a (Suc ft) = ?L1 a (Suc ft)" for a
      by (rule fold_set_col_keep) simp
    then have "discounted rt qu qd ?FWD ft = discounted rt qu qd ?L1 ft"
      by (rule discounted_dep)
    moreover have "?FWD i ft = discounted rt qu qd ?FWD ft i"
      using True by (intro fold_set_col discounted_dep) auto
    ultimately show ?thesis
      unfolding fut fwd using True by (simp add: set_col_def)
  next
    case False
    with assms have "?FWD i j = ?L1 i j"
      by (intro fold_set_col_keep) auto
    with False show ?thesis
      unfolding fut fwd by (auto simp add: set_col_def)
  qed
qed

lemma futures_below:
  assumes "j < ft" "i \<le> j"
  shows "cb_futures_lattice fv ft t c rt qu qd i j =
         qu * cb_futures_lattice fv ft t c rt qu qd i (j + 1)
         + qd * cb_futures_lattice fv ft t c rt qu qd (i + 1) (j + 1)"
  unfolding cb_futures_lattice_def Let_def
  using assms by (intro fold_set_col [where g = "\<lambda>L i a. qu * L a (i + 1) + qd * L (a + 1) (i + 1)"] plain_dep) auto

lemma forward_at:
  assumes "i \<le> ft"
  shows "cb_forward_lattice fv ft t c rt qu qd i ft =
         discounted rt qu qd (cb_forward_lattice fv ft t c rt qu qd) ft i"
  unfolding cb_forward_lattice_def
  using assms by (intro fold_set_col discounted_dep) auto

lemma forward_coupons:
  assumes "ft < j" "j < t" "i \<le> j"
  shows "cb_forward_lattice fv ft t c rt qu qd i j =
         fv * c + discounted rt qu qd (cb_forward_lattice fv ft t c rt qu qd) j i"
proof -
  let ?cstep = "\<lambda>i L. set_col L i (\<lambda>a. fv * c + discounted rt qu qd L i a)"
  let ?L1 = "fold ?cstep (rev [ft + 1..<t]) (last_col t (\<lambda>a. (1 + c) * fv))"
  have keep: "cb_forward_lattice fv ft t c rt qu qd a b = ?L1 a b" if "ft < b" for a b
    unfolding cb_forward_lattice_def using that by (intro fold_set_col_keep) auto
  have "?L1 i j = fv * c + discounted rt qu qd ?L1 j i"
    using assms
    by (intro fold_set_col [where g = "\<lambda>L i a. fv * c + discounted rt qu qd L i a"] coupon_dep) auto
  moreover have "discounted rt qu qd ?L1 j = discounted rt qu qd (cb_forward_lattice fv ft t c rt qu qd) j"
    using assms by (intro discounted_dep) (simp add: keep)
  ultimately show ?thesis
    using assms by (simp add: keep)
qed

lemma forward_terminal:
  assumes "ft < t"
  shows "cb_forward_lattice fv ft t c rt qu qd i t = (if i \<le> t then (1 + c) * fv else 0)"
proof -
  have "cb_forward_lattice fv ft t c rt qu qd i t =
        fold (\<lambda>i L. set_col L i (\<lambda>a. fv * c + discounted rt qu qd L i a))
               (rev [ft + 1..<t]) (last_col t (\<lambda>a. (1 + c) * fv)) i t"
    unfolding cb_forward_lattice_def using assms by (intro fold_set_col_keep) auto
  also have "\<dots> = last_col t (\<lambda>a. (1 + c) * fv) i t"
    by (intro fold_set_col_keep) auto
  finally show ?thesis
    by (simp add: last_col_def zeros_def)
qed

subsection \<open>Futures and forward lattices\<close>

text \<open>
  C6. For \<open>0 < ft < t\<close> the array of \<^verbatim>\<open>cb_futures_price\<close> agrees with the array of
  \<^verbatim>\<open>cb_forward_price\<close> on every column from \<open>ft\<close> on: the terminal column is
  \<open>(1 + c) * face_value\<close>, the columns strictly between \<open>ft\<close> and \<open>t\<close> add the coupon to the
  discounted expectation, column \<open>ft\<close> is the discounted expectation with no coupon. Every
  column \<open>j < ft\<close> is \<open>qu\<close> times the same-row entry plus \<open>qd\<close> times the next-row entry of
  column \<open>j + 1\<close>, with no discount factor and no coupon. The price returned is the entry
  \<open>(0, 0)\<close>.
\<close>

theorem cb_futures_price_columns:
  assumes "0 < ft" and "ft < t" and rt: "rt = rates_tree r u d (t - 1)"
    and fut: "FUT = cb_futures_lattice fv ft t c rt qu qd"
    and fwd: "FWD = cb_forward_lattice fv ft t c rt qu qd"
  shows "cb_futures_price fv ft t c r u d qu qd = Inr (FUT 0 0) \<and>
         (\<forall>i j. ft \<le> j \<longrightarrow> FUT i j = FWD i j) \<and>
         (\<forall>i. FUT i t = (if i \<le> t then (1 + c) * fv else 0)) \<and>
         (\<forall>i j. ft < j \<and> j < t \<and> i \<le> j \<longrightarrow> FUT i j = fv * c + discounted rt qu qd FUT j i) \<and>
         (\<forall>i. i \<le> ft \<longrightarrow> FUT i ft = discounted rt qu qd FUT ft i) \<and>
         (\<forall>i j. j < ft \<and> i \<le> j \<longrightarrow> FUT i j = qu * FUT i (j + 1) + qd * FUT (i + 1) (j + 1))"
proof -
  have price: "cb_futures_price fv ft t c r u d qu qd = Inr (FUT 0 0)"
    using assms by (simp add: cb_futures_price_def)
  have above: "FUT i j = FWD i j" if "ft \<le> j" for i j
    unfolding fut fwd using that by (rule futures_above)
  have terminal: "FUT i t = (if i \<le> t then (1 + c) * fv else 0)" for i
    using assms(2) by (simp add: above forward_terminal fwd)
  have dep: "discounted rt qu qd FUT j = discounted rt qu qd FWD j" if "ft \<le> j" for j
    using that by (intro discounted_dep above) simp
  have coupons: "FUT i j = fv * c + discounted rt qu qd FUT j i" if "ft < j" "j < t" "i \<le> j" for i j
    using that by (simp add: above dep fwd forward_coupons)
  have at_ft: "FUT i ft = discounted rt qu qd FUT ft i" if "i \<le> ft" for i
    using that by (simp add: above dep fwd forward_at)
  have below: "FUT i j = qu * FUT i (j + 1) + qd * FUT (i + 1) (j + 1)" if "j < ft" "i \<le> j" for i j
    unfolding fut using that by (rule futures_below)
  show ?thesis
    using price above terminal coupons at_ft below by blast
qed

theorem cb_futures_price_columns_witness:
  "cb_futures_price 100 1 3 (1/10) (1/20) (11/10) (9/10) (1/2) (1/2) =
     Inr (cb_futures_lattice 100 1 3 (1/10) (rates_tree (1/20) (11/10) (9/10) (3 - 1)) (1/2) (1/2) 0 0) \<and>
   cb_futures_lattice 100 1 3 (1/10) (rates_tree (1/20) (11/10) (9/10) (3 - 1)) (1/2) (1/2) 0 0 =
     1/2 * cb_futures_lattice 100 1 3 (1/10) (rates_tree (1/20) (11/10) (9/10) (3 - 1)) (1/2) (1/2) 0 (0 + 1)
     + 1/2 * cb_futures_lattice 100 1 3 (1/10) (rates_tree (1/20) (11/10) (9/10) (3 - 1)) (1/2) (1/2) (0 + 1) (0 + 1)"
  using cb_futures_price_columns [of 1 3 "rates_tree (1/20) (11/10) (9/10) (3 - 1)" "1/20" "11/10" "9/10"
    "cb_futures_lattice 100 1 3 (1/10) (rates_tree (1/20) (11/10) (9/10) (3 - 1)) (1/2) (1/2)"
    100 "1/10" "1/2" "1/2"
    "cb_forward_lattice 100 1 3 (1/10) (rates_tree (1/20) (11/10) (9/10) (3 - 1)) (1/2) (1/2)"]
  by simp

subsection \<open>Scaling the face value or the notional\<close>

lemma last_col_scaled: "last_col n (\<lambda>a. k * v a) = (\<lambda>a b. k * last_col n v a b)"
  by (intro ext) (simp add: last_col_def zeros_def)

lemma discount_step_scaled:
  "set_col (\<lambda>a b. k * L a b) i (discounted rt qu qd (\<lambda>a b. k * L a b) i) =
   (\<lambda>a b. k * set_col L i (discounted rt qu qd L i) a b)"
  by (intro ext) (simp add: set_col_def discounted_def algebra_simps)

lemma coupon_step_scaled:
  "set_col (\<lambda>a b. k * L a b) i (\<lambda>a. k * v * c + discounted rt qu qd (\<lambda>a b. k * L a b) i a) =
   (\<lambda>a b. k * set_col L i (\<lambda>a. v * c + discounted rt qu qd L i a) a b)"
  by (intro ext) (simp add: set_col_def discounted_def algebra_simps)

lemma plain_step_scaled:
  "set_col (\<lambda>a b. k * L a b) i (\<lambda>a. qu * (k * L a (i + 1)) + qd * (k * L (a + 1) (i + 1))) =
   (\<lambda>a b. k * set_col L i (\<lambda>a. qu * L a (i + 1) + qd * L (a + 1) (i + 1)) a b)"
  by (intro ext) (simp add: set_col_def algebra_simps)

lemma set_col_scaled:
  "set_col (\<lambda>a b. k * L a b) i (\<lambda>a. k * v a) = (\<lambda>a b. k * set_col L i v a b)"
  by (intro ext) (simp add: set_col_def)

lemma discount_fold_scaled:
  "fold (\<lambda>i L. set_col L i (discounted rt qu qd L i)) xs (\<lambda>a b. k * L a b) =
   (\<lambda>a b. k * fold (\<lambda>i L. set_col L i (discounted rt qu qd L i)) xs L a b)"
  by (induction xs arbitrary: L) (simp_all add: discount_step_scaled)

lemma coupon_step_fold_scaled:
  "fold (\<lambda>i L. set_col L i (\<lambda>a. k * v * c + discounted rt qu qd L i a)) xs (\<lambda>a b. k * L a b) =
   (\<lambda>a b. k * fold (\<lambda>i L. set_col L i (\<lambda>a. v * c + discounted rt qu qd L i a)) xs L a b)"
  by (induction xs arbitrary: L) (simp_all add: coupon_step_scaled)

lemma plain_fold_scaled:
  "fold (\<lambda>i L. set_col L i (\<lambda>a. qu * L a (i + 1) + qd * L (a + 1) (i + 1))) xs (\<lambda>a b. k * L a b) =
   (\<lambda>a b. k * fold (\<lambda>i L. set_col L i (\<lambda>a. qu * L a (i + 1) + qd * L (a + 1) (i + 1))) xs L a b)"
proof (induction xs arbitrary: L)
  case Nil
  show ?case by simp
next
  case (Cons x xs)
  have "set_col (\<lambda>a b. k * L a b) x (\<lambda>a. qu * (k * L a (x + 1)) + qd * (k * L (a + 1) (x + 1))) =
        (\<lambda>a b. k * set_col L x (\<lambda>a. qu * L a (x + 1) + qd * L (a + 1) (x + 1)) a b)"
    by (rule plain_step_scaled)
  then show ?case
    by (simp only: fold.simps o_apply Cons.IH)
qed

lemma discounted_fold_last_col_scaled:
  "fold (\<lambda>i L. set_col L i (discounted rt qu qd L i)) xs (last_col n (\<lambda>a. k * v a)) a b =
   k * fold (\<lambda>i L. set_col L i (discounted rt qu qd L i)) xs (last_col n v) a b"
  by (simp only: last_col_scaled discount_fold_scaled)


lemma zcb_price_scaled:
  "zcb_price (lam * v) t r u d qu qd = map_sum id (\<lambda>L i j. lam * L i j) (zcb_price v t r u d qu qd)"
  by (simp add: zcb_price_def Let_def last_col_scaled discount_fold_scaled)

lemma cb_lattice_scaled:
  "cb_lattice (lam * v) t c rt qu qd = (\<lambda>a b. lam * cb_lattice v t c rt qu qd a b)"
proof -
  have "(\<lambda>a::nat. (1 + c) * (lam * v)) = (\<lambda>a. lam * ((1 + c) * v))"
    by (simp add: algebra_simps)
  then show ?thesis
    unfolding cb_lattice_def
    by (simp only: last_col_scaled coupon_step_fold_scaled)
qed

lemma cb_price_scaled:
  "cb_price (lam * v) t c r u d qu qd = map_sum id (\<lambda>p. lam * p) (cb_price v t c r u d qu qd)"
  by (simp add: cb_price_def cb_lattice_scaled)

lemma coupon_fold_scaled:
  "fold (\<lambda>i L. set_col L i (\<lambda>a. lam * v * c + discounted rt qu qd L i a)) xs
     (last_col t (\<lambda>a. (1 + c) * (lam * v))) =
   (\<lambda>a b. lam * fold (\<lambda>i L. set_col L i (\<lambda>a. v * c + discounted rt qu qd L i a)) xs
     (last_col t (\<lambda>a. (1 + c) * v)) a b)"
proof -
  have "(\<lambda>a::nat. (1 + c) * (lam * v)) = (\<lambda>a. lam * ((1 + c) * v))"
    by (simp add: algebra_simps)
  then show ?thesis
    by (simp only: last_col_scaled coupon_step_fold_scaled)
qed

lemma cb_forward_lattice_scaled:
  "cb_forward_lattice (lam * v) ft t c rt qu qd = (\<lambda>a b. lam * cb_forward_lattice v ft t c rt qu qd a b)"
  unfolding cb_forward_lattice_def
  by (simp only: coupon_fold_scaled discount_fold_scaled)

lemma cb_forward_price_scaled:
  "cb_forward_price (lam * v) ft t c r u d qu qd =
   map_sum id (\<lambda>L i j. lam * L i j) (cb_forward_price v ft t c r u d qu qd)"
  by (auto simp add: cb_forward_price_def cb_forward_lattice_scaled Let_def fun_eq_iff split: sum.splits)

lemma cb_futures_lattice_scaled:
  "cb_futures_lattice (lam * v) ft t c rt qu qd = (\<lambda>a b. lam * cb_futures_lattice v ft t c rt qu qd a b)"
proof -
  let ?L1 = "fold (\<lambda>i L. set_col L i (\<lambda>a. v * c + discounted rt qu qd L i a)) (rev [ft + 1..<t])
               (last_col t (\<lambda>a. (1 + c) * v))"
  have disc: "discounted rt qu qd (\<lambda>a b. lam * ?L1 a b) ft = (\<lambda>a. lam * discounted rt qu qd ?L1 ft a)"
    by (intro ext) (simp add: discounted_def algebra_simps)
  show ?thesis
    unfolding cb_futures_lattice_def Let_def
    by (simp only: coupon_fold_scaled disc set_col_scaled plain_fold_scaled)
qed

lemma cb_futures_price_scaled:
  "cb_futures_price (lam * v) ft t c r u d qu qd =
   map_sum id (\<lambda>p. lam * p) (cb_futures_price v ft t c r u d qu qd)"
  by (simp add: cb_futures_price_def cb_futures_lattice_scaled)

lemma caplet_price_scaled:
  "caplet_price (lam * v) c t r u d qu qd = map_sum id (\<lambda>p. lam * p) (caplet_price v c t r u d qu qd)"
proof (cases "t = 0")
  case True
  then show ?thesis by (simp add: caplet_price_def)
next
  case False
  let ?rt = "rates_tree r u d (t - 1)"
  have eq: "(\<lambda>a. lam * v * max (?rt a (t - 1) - c) 0 / (1 + ?rt a (t - 1))) =
        (\<lambda>a. lam * (v * max (?rt a (t - 1) - c) 0 / (1 + ?rt a (t - 1))))"
    by (simp add: algebra_simps)
  show ?thesis
    unfolding caplet_price_def Let_def eq discounted_fold_last_col_scaled
    using False by simp
qed

lemma floorlet_price_scaled:
  "floorlet_price (lam * v) c t r u d qu qd = map_sum id (\<lambda>p. lam * p) (floorlet_price v c t r u d qu qd)"
proof (cases "t = 0")
  case True
  then show ?thesis by (simp add: floorlet_price_def)
next
  case False
  let ?rt = "rates_tree r u d (t - 1)"
  have eq: "(\<lambda>a. lam * v * max (c - ?rt a (t - 1)) 0 / (1 + ?rt a (t - 1))) =
        (\<lambda>a. lam * (v * max (c - ?rt a (t - 1)) 0 / (1 + ?rt a (t - 1))))"
    by (simp add: algebra_simps)
  show ?thesis
    unfolding floorlet_price_def Let_def eq discounted_fold_last_col_scaled
    using False by simp
qed

lemma swap_price_scaled:
  "swap_price (lam * v) c t r u d qu qd = map_sum id (\<lambda>p. lam * p) (swap_price v c t r u d qu qd)"
  by (simp add: swap_price_def Let_def algebra_simps)

lemma swaption_price_scaled:
  "swaption_price (lam * v) ot c t r u d qu qd = map_sum id (\<lambda>p. lam * p) (swaption_price v ot c t r u d qu qd)"
  by (simp add: swaption_price_def Let_def algebra_simps)


text \<open>
  C7. Every pricer is homogeneous of degree 1 in its face value or notional: at
  \<open>lam * v\<close> it returns \<open>lam\<close> times what it returns at \<open>v\<close> (entry by entry where the
  result is an array), and it fails at \<open>lam * v\<close> exactly when it fails at \<open>v\<close>. This holds
  for every \<open>lam\<close>, so for every nonnegative one.
\<close>

theorem pricers_homogeneous:
  "zcb_price (lam * v) t r u d qu qd = map_sum id (\<lambda>L i j. lam * L i j) (zcb_price v t r u d qu qd) \<and>
   cb_price (lam * v) t c r u d qu qd = map_sum id (\<lambda>p. lam * p) (cb_price v t c r u d qu qd) \<and>
   cb_forward_price (lam * v) ft t c r u d qu qd =
     map_sum id (\<lambda>L i j. lam * L i j) (cb_forward_price v ft t c r u d qu qd) \<and>
   cb_futures_price (lam * v) ft t c r u d qu qd =
     map_sum id (\<lambda>p. lam * p) (cb_futures_price v ft t c r u d qu qd) \<and>
   caplet_price (lam * v) c t r u d qu qd = map_sum id (\<lambda>p. lam * p) (caplet_price v c t r u d qu qd) \<and>
   floorlet_price (lam * v) c t r u d qu qd = map_sum id (\<lambda>p. lam * p) (floorlet_price v c t r u d qu qd) \<and>
   swap_price (lam * v) c t r u d qu qd = map_sum id (\<lambda>p. lam * p) (swap_price v c t r u d qu qd) \<and>
   swaption_price (lam * v) ot c t r u d qu qd =
     map_sum id (\<lambda>p. lam * p) (swaption_price v ot c t r u d qu qd)"
  by (intro conjI zcb_price_scaled cb_price_scaled cb_forward_price_scaled cb_futures_price_scaled
      caplet_price_scaled floorlet_price_scaled swap_price_scaled swaption_price_scaled)

subsection \<open>Swaption exercised at once\<close>

text \<open>
  C10. For a nonnegative notional and a horizon of at least one period, the swaption with
  exercise date \<open>ot = 0\<close> is worth the positive part of the swap price.
\<close>

theorem swaption_at_zero:
  assumes "0 \<le> n" "0 < t"
  shows "\<exists>p. swap_price n c t r u d qu qd = Inr p \<and>
             swaption_price n 0 c t r u d qu qd = Inr (max p 0)"
proof -
  let ?rt = "rates_tree r u d (t - 1)"
  let ?S = "fold (\<lambda>i L. set_col L i (swap_step ?rt c qu qd L i)) (rev [0..<t - 1])
              (last_col (t - 1) (\<lambda>a. (?rt a (t - 1) - c) / (1 + ?rt a (t - 1))))"
  have swap: "swap_price n c t r u d qu qd = Inr (n * ?S 0 0)"
    using assms by (simp add: swap_price_def Let_def)
  have "swaption_price n 0 c t r u d qu qd = Inr (n * max (?S 0 0) 0)"
    using assms by (simp add: swaption_price_def Let_def set_col_def)
  also have "n * max (?S 0 0) 0 = max (n * ?S 0 0) 0"
    using assms(1) by (simp add: max_def mult_le_0_iff zero_le_mult_iff)
  finally show ?thesis
    using swap by blast
qed

theorem swaption_at_zero_witness:
  "\<exists>p. swap_price 100 (1/20) 2 (1/20) (11/10) (9/10) (1/2) (1/2) = Inr p \<and>
       swaption_price 100 0 (1/20) 2 (1/20) (11/10) (9/10) (1/2) (1/2) = Inr (max p 0)"
  by (rule swaption_at_zero) simp_all

subsection \<open>The BDT rate lattice\<close>

lemma bdt_fold_entries:
  "fold (\<lambda>i rt. set_col rt i (\<lambda>k. a ! i * exp (b * real (i - k)))) [0..<n] zeros i j =
     (if i \<le> j \<and> j < n then a ! j * exp (b * real (j - i)) else 0)"
proof (induction n)
  case 0
  show ?case by (simp add: zeros_def)
next
  case (Suc n)
  let ?f = "\<lambda>i rt. set_col rt i (\<lambda>k. a ! i * exp (b * real (i - k)))"
  have "fold ?f [0..<Suc n] zeros i j = set_col (fold ?f [0..<n] zeros) n (\<lambda>k. a ! n * exp (b * real (n - k))) i j"
    by simp
  also have "\<dots> = (if j = n \<and> i \<le> n then a ! n * exp (b * real (n - i)) else fold ?f [0..<n] zeros i j)"
    by (simp add: set_col_def)
  finally show ?case
    unfolding Suc.IH by auto
qed

text \<open>
  C3, as the code has it. For a parameter vector of length at least \<open>t + 1\<close>, the BDT
  rate lattice has entry \<open>a[j] * exp(b * (j - i)) / 100\<close> at every position \<open>(i, j)\<close> with
  \<open>i \<le> j \<le> t\<close>, and zero at every position with \<open>i > j\<close>: the function returns
  \<^verbatim>\<open>rt/100\<close>, turning the percentages \<open>a\<close> into decimal rates.
\<close>

theorem rates_tree_BDT_entries:
  assumes "t + 1 \<le> length a"
  shows "\<exists>rt. rates_tree_BDT a b t = Inr rt \<and>
           (\<forall>i j. (i \<le> j \<and> j \<le> t \<longrightarrow> rt i j = a ! j * exp (b * real (j - i)) / 100) \<and>
                  (j < i \<longrightarrow> rt i j = 0))"
  using assms by (simp add: rates_tree_BDT_def Let_def bdt_fold_entries del: upt_Suc)

theorem rates_tree_BDT_entries_witness:
  "\<exists>rt. rates_tree_BDT [5, 5] 0 1 = Inr rt \<and>
           (\<forall>i j. (i \<le> j \<and> j \<le> 1 \<longrightarrow> rt i j = [5, 5] ! j * exp (0 * real (j - i)) / 100) \<and>
                  (j < i \<longrightarrow> rt i j = 0))"
  by (rule rates_tree_BDT_entries) simp

text \<open>
  Without the division by 100 the statement fails: with \<open>a = [5]\<close>, \<open>b = 0\<close>, \<open>t = 0\<close> the
  root rate is \<open>5/100\<close>, not \<open>5\<close>.
\<close>

theorem rates_tree_BDT_counterexample:
  "entry (rates_tree_BDT [5] 0 0) 0 0 = Inr (5 / 100) \<and>
   entry (rates_tree_BDT [5] 0 0) 0 0 \<noteq> Inr ([5] ! 0 * exp (0 * real (0 - 0)))"
  by (simp add: rates_tree_BDT_def entry_def set_col_def zeros_def)

subsection \<open>Evaluating the pricers\<close>

lemmas eval_defs = rates_tree_def rates_row_def set_col_def set_entry_def discounted_def last_col_def
  zeros_def entry_def column_sum_def ept_loops_def ept_edges_def ept_interior_def Let_def

text \<open>
  What \<^verbatim>\<open>cb_forward_price\<close> returns for \<open>0 < ft < t\<close>: the root of its coupon-bond array
  divided by each entry of the zero-coupon array. The last column of that array is 1, so
  the last column of the result is the root itself.
\<close>

lemma cb_forward_price_broadcast:
  assumes "0 < ft" "ft < t"
  shows "\<exists>zcb. zcb_price 1 ft r u d qu qd = Inr zcb \<and> (\<forall>i\<le>ft. zcb i ft = 1) \<and>
           cb_forward_price face_value ft t c r u d qu qd =
             Inr (\<lambda>i j. if i \<le> ft \<and> j \<le> ft
                       then cb_forward_lattice face_value ft t c (rates_tree r u d (t - 1)) qu qd 0 0 / zcb i j
                       else 0)"
proof -
  let ?zcb = "fold (\<lambda>i L. set_col L i (discounted (rates_tree r u d (ft - 1)) qu qd L i)) (rev [0..<ft])
                (last_col ft (\<lambda>a. 1))"
  have run: "zcb_price 1 ft r u d qu qd = Inr ?zcb"
    using assms by (simp add: zcb_price_def)
  have "?zcb i ft = 1" if "i \<le> ft" for i
  proof -
    have "?zcb i ft = last_col ft (\<lambda>a. 1) i ft"
      by (rule fold_set_col_keep) simp
    with that show ?thesis by (simp add: last_col_def)
  qed
  moreover have "cb_forward_price face_value ft t c r u d qu qd =
      Inr (\<lambda>i j. if i \<le> ft \<and> j \<le> ft
                then cb_forward_lattice face_value ft t c (rates_tree r u d (t - 1)) qu qd 0 0 / ?zcb i j
                else 0)"
    unfolding cb_forward_price_def run using assms by (simp del: One_nat_def)
  ultimately show ?thesis
    using run by blast
qed

text \<open>
  C1. \<^verbatim>\<open>cb_forward_price\<close> divides by the array that \<^verbatim>\<open>zcb_price\<close> returns, not by its
  root entry, so it returns an array and no single scalar. With \<open>face_value = 100\<close>,
  \<open>ft = 1\<close>, \<open>t = 2\<close>, \<open>c = 1/10\<close>, \<open>r = 1/20\<close>, \<open>u = 11/10\<close>, \<open>d = 9/10\<close>, \<open>qu = qd = 1/2\<close>
  the entry \<open>[0, 0]\<close> is the root value over the zero-coupon price \<open>20/21\<close>, and the entry
  \<open>[0, 1]\<close> is the root value over the terminal entry \<open>1\<close>.
\<close>

theorem cb_forward_price_array:
  "entry (cb_forward_price 100 1 2 (1/10) (1/20) (11/10) (9/10) (1/2) (1/2)) 0 0 = Inr (420000 / 4009) \<and>
   entry (cb_forward_price 100 1 2 (1/10) (1/20) (11/10) (9/10) (1/2) (1/2)) 0 1 = Inr (400000 / 4009) \<and>
   entry (zcb_price 1 1 (1/20) (11/10) (9/10) (1/2) (1/2)) 0 0 = Inr (20 / 21) \<and>
   entry (zcb_price 1 1 (1/20) (11/10) (9/10) (1/2) (1/2)) 0 1 = Inr 1"
  by (simp add: cb_forward_price_def cb_forward_lattice_def zcb_price_def eval_defs upt_rec numeral_eq_Suc)

text \<open>
  C2. With \<open>t = 2\<close>, \<open>r = 1/10\<close>, \<open>u = 2\<close>, \<open>d = 1/2\<close>, \<open>qu = 3/5\<close>, \<open>qd = 2/5\<close> and face
  value 1, backward induction gives the root \<open>185/231\<close> and the last column of the
  elementary price lattice sums to \<open>190/231\<close>. The interior assignment of
  \<^verbatim>\<open>elementary_price_tree\<close> weights the row above with \<open>qu\<close> and the same row with \<open>qd\<close>,
  while its edge assignments and every backward loop weight the same row with \<open>qu\<close> and
  the next row with \<open>qd\<close>.
\<close>

theorem zcb_root_vs_elementary_column:
  "entry (zcb_price 1 2 (1/10) 2 (1/2) (3/5) (2/5)) 0 0 = Inr (185 / 231) \<and>
   map_sum id (\<lambda>ept. 1 * column_sum ept 2 2) (elementary_price_tree (1/10) 2 (1/2) 2 (3/5) (2/5)) = Inr (190 / 231)"
  by (simp add: zcb_price_def elementary_price_tree_def eval_defs upt_rec numeral_eq_Suc)

text \<open>
  C4. With all rates \<open>1/10\<close>, \<open>t = 2\<close> and \<open>qu = 9/10\<close>, the column sums of the elementary
  price lattice are \<open>1\<close>, \<open>10/11\<close>, \<open>164/121\<close> in both modules: the last one exceeds the one
  before it, and exceeds 1.
\<close>

theorem elementary_column_sums_grow:
  "map_sum id (\<lambda>ept. map (column_sum ept 2) [0, 1, 2]) (elementary_price_tree (1/10) 1 1 2 (9/10) (1/10))
     = Inr [1, 10 / 11, 164 / 121] \<and>
   map_sum id (\<lambda>ept. map (column_sum ept 2) [0, 1, 2]) (elementary_price_tree_BDT [10, 10] 0 2 (9/10))
     = Inr [1, 10 / 11, 164 / 121]"
  by (simp add: elementary_price_tree_BDT_def rates_tree_BDT_def elementary_price_tree_def eval_defs upt_rec numeral_eq_Suc)

subsection \<open>Elementary prices with equal weights\<close>

text \<open>
  The entries of the elementary price lattice, column by column. When \<open>qu = qd\<close> the
  interior assignment and the edge assignments follow one rule, the root of the
  zero-coupon lattice is the face value times the last column sum, and at \<open>qu = qd = 1/2\<close>
  with positive rates the column sums decrease strictly and lie in \<open>(0, 1]\<close>.
\<close>

lemma edges_fold_step:
  "fold (ept_edges rt qu qd) [Suc 0..<Suc (Suc n)] L = ept_edges rt qu qd (Suc n) (fold (ept_edges rt qu qd) [Suc 0..<Suc n] L)"
  by (simp del: upt_Suc add: upt_Suc_append)

lemma ept_edges_entries:
  "ept_edges rt qu qd (Suc i) L a b =
     (if a = Suc i \<and> b = Suc i then qd * (L i i / (1 + rt i i))
      else if a = 0 \<and> b = Suc i then qu * (L 0 i / (1 + rt 0 i))
      else L a b)"
  by (auto simp add: ept_edges_def set_entry_def Let_def)

lemma edges_fold_keep:
  assumes "n < b \<or> (a \<noteq> 0 \<and> a \<noteq> b) \<or> b = 0"
  shows "fold (ept_edges rt qu qd) [Suc 0..<Suc n] L a b = L a b"
  using assms
proof (induction n)
  case 0
  show ?case by simp
next
  case (Suc n)
  define F where "F = fold (ept_edges rt qu qd) [Suc 0..<Suc n] L"
  from Suc have "F a b = L a b"
    unfolding F_def by auto
  moreover from Suc.prems have "ept_edges rt qu qd (Suc n) F a b = F a b"
    by (auto simp add: ept_edges_entries)
  ultimately show ?case
    unfolding edges_fold_step F_def by simp
qed

lemma edges_fold_top:
  assumes "1 \<le> b" "b \<le> n"
  shows "fold (ept_edges rt qu qd) [Suc 0..<Suc n] L 0 b =
         qu * (fold (ept_edges rt qu qd) [Suc 0..<Suc n] L 0 (b - 1) / (1 + rt 0 (b - 1)))"
  using assms
proof (induction n)
  case 0
  then show ?case by simp
next
  case (Suc n)
  define F where "F = fold (ept_edges rt qu qd) [Suc 0..<Suc n] L"
  have step: "fold (ept_edges rt qu qd) [Suc 0..<Suc (Suc n)] L = ept_edges rt qu qd (Suc n) F"
    unfolding F_def by (rule edges_fold_step)
  show ?case
  proof (cases "b = Suc n")
    case True
    then show ?thesis
      unfolding step by (simp add: ept_edges_entries)
  next
    case False
    with Suc.prems have b: "1 \<le> b" "b \<le> n" by auto
    have "F 0 b = qu * (F 0 (b - 1) / (1 + rt 0 (b - 1)))"
      unfolding F_def using b by (rule Suc.IH)
    moreover have "ept_edges rt qu qd (Suc n) F 0 b = F 0 b"
      using b by (simp add: ept_edges_entries)
    moreover have "ept_edges rt qu qd (Suc n) F 0 (b - 1) = F 0 (b - 1)"
      using b by (auto simp add: ept_edges_entries)
    ultimately show ?thesis
      unfolding step by simp
  qed
qed

lemma edges_fold_diag:
  assumes "1 \<le> b" "b \<le> n"
  shows "fold (ept_edges rt qu qd) [Suc 0..<Suc n] L b b =
         qd * (fold (ept_edges rt qu qd) [Suc 0..<Suc n] L (b - 1) (b - 1) / (1 + rt (b - 1) (b - 1)))"
  using assms
proof (induction n)
  case 0
  then show ?case by simp
next
  case (Suc n)
  define F where "F = fold (ept_edges rt qu qd) [Suc 0..<Suc n] L"
  have step: "fold (ept_edges rt qu qd) [Suc 0..<Suc (Suc n)] L = ept_edges rt qu qd (Suc n) F"
    unfolding F_def by (rule edges_fold_step)
  show ?case
  proof (cases "b = Suc n")
    case True
    then show ?thesis
      unfolding step by (simp add: ept_edges_entries)
  next
    case False
    with Suc.prems have b: "1 \<le> b" "b \<le> n" by auto
    have "F b b = qd * (F (b - 1) (b - 1) / (1 + rt (b - 1) (b - 1)))"
      unfolding F_def using b by (rule Suc.IH)
    moreover have "ept_edges rt qu qd (Suc n) F b b = F b b"
      using b by (simp add: ept_edges_entries)
    moreover have "ept_edges rt qu qd (Suc n) F (b - 1) (b - 1) = F (b - 1) (b - 1)"
      using b by (auto simp add: ept_edges_entries)
    ultimately show ?thesis
      unfolding step by simp
  qed
qed

lemma interior_fold_step:
  "fold (ept_interior rt qu qd) [Suc 0..<Suc (Suc n)] L =
   ept_interior rt qu qd (Suc n) (fold (ept_interior rt qu qd) [Suc 0..<Suc n] L)"
  by (simp del: upt_Suc add: upt_Suc_append)

lemma interior_fold_keep:
  assumes "\<not> (1 \<le> a \<and> a < b \<and> b \<le> n)"
  shows "fold (ept_interior rt qu qd) [Suc 0..<Suc n] L a b = L a b"
  using assms
proof (induction n)
  case 0
  show ?case by simp
next
  case (Suc n)
  define F where "F = fold (ept_interior rt qu qd) [Suc 0..<Suc n] L"
  from Suc have "F a b = L a b"
    unfolding F_def by auto
  moreover from Suc.prems have "ept_interior rt qu qd (Suc n) F a b = F a b"
    by (auto simp add: ept_interior_def)
  ultimately show ?case
    unfolding interior_fold_step F_def by simp
qed

lemma interior_fold_inside:
  assumes "1 \<le> a" "a < b" "b \<le> n"
  shows "fold (ept_interior rt qu qd) [Suc 0..<Suc n] L a b =
         qu * (1 / (1 + rt (a - 1) (b - 1))) * fold (ept_interior rt qu qd) [Suc 0..<Suc n] L (a - 1) (b - 1)
         + qd * (1 / (1 + rt a (b - 1))) * fold (ept_interior rt qu qd) [Suc 0..<Suc n] L a (b - 1)"
  using assms
proof (induction n)
  case 0
  then show ?case by simp
next
  case (Suc n)
  define F where "F = fold (ept_interior rt qu qd) [Suc 0..<Suc n] L"
  have step: "fold (ept_interior rt qu qd) [Suc 0..<Suc (Suc n)] L = ept_interior rt qu qd (Suc n) F"
    unfolding F_def by (rule interior_fold_step)
  have other: "ept_interior rt qu qd (Suc n) F x y = F x y" if "y \<le> n" for x y
    using that by (simp add: ept_interior_def)
  show ?case
  proof (cases "b = Suc n")
    case True
    have "ept_interior rt qu qd (Suc n) F a (Suc n) =
          qu * (1 / (1 + rt (a - 1) n)) * F (a - 1) n + qd * (1 / (1 + rt a n)) * F a n"
      using Suc.prems True by (simp add: ept_interior_def)
    then show ?thesis
      unfolding step True by (simp add: other)
  next
    case False
    with Suc.prems have b: "b \<le> n" by simp
    have "F a b = qu * (1 / (1 + rt (a - 1) (b - 1))) * F (a - 1) (b - 1)
                  + qd * (1 / (1 + rt a (b - 1))) * F a (b - 1)"
      unfolding F_def using Suc.prems(1,2) b by (rule Suc.IH)
    moreover from b have "b - 1 \<le> n" by simp
    ultimately show ?thesis
      unfolding step using b by (simp add: other)
  qed
qed

lemma ept_loops_unfold:
  "ept_loops rt t qu qd =
     fold (ept_interior rt qu qd) [Suc 0..<Suc t]
       (fold (ept_edges rt qu qd) [Suc 0..<Suc t] (set_entry zeros 0 0 1))"
  by (simp add: ept_loops_def)

lemma ept_loops_edge:
  assumes "a = 0 \<or> a = b \<or> b < a"
  shows "ept_loops rt t qu qd a b =
         fold (ept_edges rt qu qd) [Suc 0..<Suc t] (set_entry zeros 0 0 1) a b"
  unfolding ept_loops_unfold using assms by (intro interior_fold_keep) auto

lemma ept_loops_root: "ept_loops rt t qu qd 0 0 = 1"
proof -
  have "ept_loops rt t qu qd 0 0 =
        fold (ept_edges rt qu qd) [Suc 0..<Suc t] (set_entry zeros 0 0 1) 0 0"
    by (rule ept_loops_edge) simp
  also have "\<dots> = set_entry zeros 0 0 1 0 0"
    by (rule edges_fold_keep) simp
  finally show ?thesis by (simp add: set_entry_def)
qed

lemma ept_loops_below:
  assumes "b < a"
  shows "ept_loops rt t qu qd a b = 0"
proof -
  have "ept_loops rt t qu qd a b =
        fold (ept_edges rt qu qd) [Suc 0..<Suc t] (set_entry zeros 0 0 1) a b"
    using assms by (intro ept_loops_edge) simp
  also have "\<dots> = set_entry zeros 0 0 1 a b"
    using assms by (intro edges_fold_keep) auto
  finally show ?thesis
    using assms by (simp add: set_entry_def zeros_def)
qed

lemma ept_loops_top:
  assumes "j < t"
  shows "ept_loops rt t qu qd 0 (Suc j) = qu * (ept_loops rt t qu qd 0 j / (1 + rt 0 j))"
proof -
  have "ept_loops rt t qu qd 0 (Suc j) =
        fold (ept_edges rt qu qd) [Suc 0..<Suc t] (set_entry zeros 0 0 1) 0 (Suc j)"
    by (rule ept_loops_edge) simp
  also have "\<dots> = qu * (fold (ept_edges rt qu qd) [Suc 0..<Suc t] (set_entry zeros 0 0 1) 0 (Suc j - 1)
                         / (1 + rt 0 (Suc j - 1)))"
    using assms by (intro edges_fold_top) auto
  also have "fold (ept_edges rt qu qd) [Suc 0..<Suc t] (set_entry zeros 0 0 1) 0 (Suc j - 1) =
             ept_loops rt t qu qd 0 j"
    by (simp add: ept_loops_edge)
  finally show ?thesis by simp
qed

lemma ept_loops_diag:
  assumes "j < t"
  shows "ept_loops rt t qu qd (Suc j) (Suc j) = qd * (ept_loops rt t qu qd j j / (1 + rt j j))"
proof -
  have "ept_loops rt t qu qd (Suc j) (Suc j) =
        fold (ept_edges rt qu qd) [Suc 0..<Suc t] (set_entry zeros 0 0 1) (Suc j) (Suc j)"
    by (rule ept_loops_edge) simp
  also have "\<dots> = qd * (fold (ept_edges rt qu qd) [Suc 0..<Suc t] (set_entry zeros 0 0 1) (Suc j - 1) (Suc j - 1)
                         / (1 + rt (Suc j - 1) (Suc j - 1)))"
    using assms by (intro edges_fold_diag) auto
  also have "fold (ept_edges rt qu qd) [Suc 0..<Suc t] (set_entry zeros 0 0 1) (Suc j - 1) (Suc j - 1) =
             ept_loops rt t qu qd j j"
    by (simp add: ept_loops_edge)
  finally show ?thesis by simp
qed

lemma ept_loops_inside:
  assumes "j < t" "a < j"
  shows "ept_loops rt t qu qd (Suc a) (Suc j) =
         qu * (1 / (1 + rt a j)) * ept_loops rt t qu qd a j
         + qd * (1 / (1 + rt (Suc a) j)) * ept_loops rt t qu qd (Suc a) j"
proof -
  have "1 \<le> Suc a" "Suc a < Suc j" "Suc j \<le> t"
    using assms by auto
  from interior_fold_inside [OF this, of rt qu qd "fold (ept_edges rt qu qd) [Suc 0..<Suc t] (set_entry zeros 0 0 1)"]
  show ?thesis
    unfolding ept_loops_unfold by simp
qed

text \<open>With equal weights every entry of the next column is the sum of what its two
  predecessors send on.\<close>

lemma ept_loops_next_column:
  assumes "j < t" "a \<le> Suc j"
  shows "ept_loops rt t q q a (Suc j) =
         (if a \<le> j then q * ept_loops rt t q q a j / (1 + rt a j) else 0)
         + (if 1 \<le> a then q * ept_loops rt t q q (a - 1) j / (1 + rt (a - 1) j) else 0)"
proof (cases a)
  case 0
  with assms show ?thesis by (simp add: ept_loops_top)
next
  case (Suc a')
  show ?thesis
  proof (cases "a' = j")
    case True
    with Suc assms show ?thesis by (simp add: ept_loops_diag)
  next
    case False
    with Suc assms have "a' < j" by simp
    with Suc assms show ?thesis by (simp add: ept_loops_inside)
  qed
qed

lemma column_sum_sum: "column_sum L t j = (\<Sum>a\<le>t. L a j)"
proof -
  have "column_sum L t j = sum (\<lambda>a. L a j) (set [0..<Suc t])"
    unfolding column_sum_def by (simp only: interv_sum_list_conv_sum_set_nat Suc_eq_plus1)
  also have "set [0..<Suc t] = {..t}"
    by auto
  finally show ?thesis .
qed

lemma ept_next_column_sum:
  assumes "j < t"
  shows "(\<Sum>a\<le>Suc j. ept_loops rt t q q a (Suc j) * g a) =
         (\<Sum>a\<le>j. q * ept_loops rt t q q a j / (1 + rt a j) * (g a + g (Suc a)))"
proof -
  let ?E = "ept_loops rt t q q"
  let ?w = "\<lambda>a. q * ?E a j / (1 + rt a j)"
  have "(\<Sum>a\<le>Suc j. ?E a (Suc j) * g a) =
        (\<Sum>a\<le>Suc j. (if a \<le> j then ?w a * g a else 0) + (if 1 \<le> a then ?w (a - 1) * g a else 0))"
  proof (rule sum.cong [OF refl])
    fix a assume "a \<in> {..Suc j}"
    then have "a \<le> Suc j" by simp
    with assms have "?E a (Suc j) = (if a \<le> j then ?w a else 0) + (if 1 \<le> a then ?w (a - 1) else 0)"
      by (rule ept_loops_next_column)
    then show "?E a (Suc j) * g a =
               (if a \<le> j then ?w a * g a else 0) + (if 1 \<le> a then ?w (a - 1) * g a else 0)"
      by (simp add: algebra_simps)
  qed
  also have "\<dots> = (\<Sum>a\<le>Suc j. if a \<le> j then ?w a * g a else 0)
                   + (\<Sum>a\<le>Suc j. if 1 \<le> a then ?w (a - 1) * g a else 0)"
    by (rule sum.distrib)
  also have "(\<Sum>a\<le>Suc j. if a \<le> j then ?w a * g a else 0) = (\<Sum>a\<le>j. ?w a * g a)"
    by simp
  also have "(\<Sum>a\<le>Suc j. if 1 \<le> a then ?w (a - 1) * g a else 0) = (\<Sum>a\<le>j. ?w a * g (Suc a))"
    by (simp add: sum.atMost_Suc_shift del: sum.atMost_Suc)
  also have "(\<Sum>a\<le>j. ?w a * g a) + (\<Sum>a\<le>j. ?w a * g (Suc a)) = (\<Sum>a\<le>j. ?w a * (g a + g (Suc a)))"
    by (simp only: sum.distrib [symmetric] distrib_left)
  finally show ?thesis .
qed

lemma zcb_lattice_step:
  assumes "a \<le> j" "j < t"
  shows "fold (\<lambda>i L. set_col L i (discounted rt qu qd L i)) (rev [0..<t]) L0 a j =
         discounted rt qu qd (fold (\<lambda>i L. set_col L i (discounted rt qu qd L i)) (rev [0..<t]) L0) j a"
  using assms by (intro fold_set_col discounted_dep) auto

lemma zcb_lattice_terminal:
  "fold (\<lambda>i L. set_col L i (discounted rt qu qd L i)) (rev [0..<t]) L0 a t = L0 a t"
  by (rule fold_set_col_keep) simp

lemma ept_zcb_invariant:
  assumes "j \<le> t"
  shows "(\<Sum>a\<le>j. ept_loops rt t q q a j *
            fold (\<lambda>i L. set_col L i (discounted rt q q L i)) (rev [0..<t]) L0 a j) =
         fold (\<lambda>i L. set_col L i (discounted rt q q L i)) (rev [0..<t]) L0 0 0"
  using assms
proof (induction j)
  case 0
  show ?case by (simp add: ept_loops_root)
next
  case (Suc j)
  let ?E = "ept_loops rt t q q"
  let ?V = "fold (\<lambda>i L. set_col L i (discounted rt q q L i)) (rev [0..<t]) L0"
  from Suc.prems have j: "j < t" by simp
  have "(\<Sum>a\<le>Suc j. ?E a (Suc j) * ?V a (Suc j)) =
        (\<Sum>a\<le>j. q * ?E a j / (1 + rt a j) * (?V a (Suc j) + ?V (Suc a) (Suc j)))"
    using j by (rule ept_next_column_sum)
  also have "\<dots> = (\<Sum>a\<le>j. ?E a j * ?V a j)"
  proof (rule sum.cong [OF refl])
    fix a assume "a \<in> {..j}"
    then have "a \<le> j" by simp
    then have "?V a j = discounted rt q q ?V j a"
      using j by (rule zcb_lattice_step)
    then show "q * ?E a j / (1 + rt a j) * (?V a (Suc j) + ?V (Suc a) (Suc j)) = ?E a j * ?V a j"
      by (simp add: discounted_def algebra_simps)
  qed
  also have "\<dots> = ?V 0 0"
    using j by (intro Suc.IH) simp
  finally show ?case .
qed

lemma zcb_root_elementary_equal_weights:
  "entry (zcb_price face_value t r u d q q) 0 0 =
   map_sum id (\<lambda>ept. face_value * column_sum ept t t) (elementary_price_tree r u d t q q)"
proof (cases "t = 0")
  case True
  then show ?thesis
    by (simp add: zcb_price_def elementary_price_tree_def entry_def)
next
  case False
  let ?rt = "rates_tree r u d (t - 1)"
  let ?E = "ept_loops ?rt t q q"
  let ?V = "fold (\<lambda>i L. set_col L i (discounted ?rt q q L i)) (rev [0..<t]) (last_col t (\<lambda>a. face_value))"
  have "?V 0 0 = (\<Sum>a\<le>t. ?E a t * ?V a t)"
    by (rule ept_zcb_invariant [symmetric]) simp
  also have "\<dots> = (\<Sum>a\<le>t. ?E a t * face_value)"
    by (intro sum.cong refl) (simp add: zcb_lattice_terminal last_col_def)
  also have "\<dots> = face_value * column_sum ?E t t"
    by (simp add: column_sum_sum sum_distrib_left mult.commute)
  finally have "?V 0 0 = face_value * column_sum ?E t t" .
  with False show ?thesis
    by (simp add: zcb_price_def elementary_price_tree_def entry_def Let_def)
qed

lemma ept_half_positive:
  assumes rates: "\<forall>a j. a \<le> j \<and> j < t \<longrightarrow> 0 < rt a j"
    and "a \<le> j" "j \<le> t"
  shows "0 < ept_loops rt t (1/2) (1/2) a j"
  using assms(2,3)
proof (induction j arbitrary: a)
  case 0
  then show ?case by (simp add: ept_loops_root)
next
  case (Suc j)
  let ?E = "ept_loops rt t (1/2) (1/2)"
  from Suc.prems have j: "j < t" by simp
  have w: "0 < 1/2 * ?E x j / (1 + rt x j)" if "x \<le> j" for x
  proof -
    from that j have "0 < ?E x j" by (intro Suc.IH) auto
    moreover from that j rates have "0 < rt x j" by simp
    ultimately show ?thesis by simp
  qed
  have next_col: "?E a (Suc j) =
        (if a \<le> j then 1/2 * ?E a j / (1 + rt a j) else 0)
        + (if 1 \<le> a then 1/2 * ?E (a - 1) j / (1 + rt (a - 1) j) else 0)"
    using j Suc.prems(1) by (rule ept_loops_next_column)
  show ?case
  proof (cases "a \<le> j")
    case True
    have "0 < 1/2 * ?E a j / (1 + rt a j)"
      using True by (rule w)
    moreover have "0 \<le> (if 1 \<le> a then 1/2 * ?E (a - 1) j / (1 + rt (a - 1) j) else 0)"
      using True w [of "a - 1"] by (auto simp add: less_imp_le)
    ultimately show ?thesis
      unfolding next_col using True by simp
  next
    case False
    with Suc.prems have a: "a = Suc j" by simp
    have "0 < 1/2 * ?E j j / (1 + rt j j)"
      by (rule w) simp
    moreover have "?E (Suc j) (Suc j) = 1/2 * ?E j j / (1 + rt j j)"
      using next_col unfolding a by simp
    ultimately show ?thesis
      unfolding a by simp
  qed
qed

lemma ept_column_sum_triangle:
  assumes "j \<le> t"
  shows "column_sum (ept_loops rt t qu qd) t j = (\<Sum>a\<le>j. ept_loops rt t qu qd a j)"
  unfolding column_sum_sum
  using assms by (intro sum.mono_neutral_right) (auto simp add: ept_loops_below)

lemma ept_half_next_sum:
  assumes "j < t"
  shows "column_sum (ept_loops rt t (1/2) (1/2)) t (Suc j) =
         (\<Sum>a\<le>j. ept_loops rt t (1/2) (1/2) a j / (1 + rt a j))"
proof -
  let ?E = "ept_loops rt t (1/2) (1/2)"
  have "column_sum ?E t (Suc j) = (\<Sum>a\<le>Suc j. ?E a (Suc j) * 1)"
    using assms by (simp add: ept_column_sum_triangle del: sum.atMost_Suc)
  also have "\<dots> = (\<Sum>a\<le>j. 1/2 * ?E a j / (1 + rt a j) * (1 + 1))"
    using assms by (rule ept_next_column_sum)
  also have "\<dots> = (\<Sum>a\<le>j. ?E a j / (1 + rt a j))"
  proof (rule sum.cong [OF refl])
    fix a
    have "1/2 * ?E a j / (1 + rt a j) * (1 + 1) = (1/2 * (1 + 1)) * (?E a j / (1 + rt a j))"
      by (simp only: times_divide_eq_right mult.assoc mult.commute mult.left_commute)
    then show "1/2 * ?E a j / (1 + rt a j) * (1 + 1) = ?E a j / (1 + rt a j)"
      by simp
  qed
  finally show ?thesis .
qed

lemma ept_half_decreasing:
  assumes rates: "\<forall>a j. a \<le> j \<and> j < t \<longrightarrow> 0 < rt a j" and "j < t"
  shows "column_sum (ept_loops rt t (1/2) (1/2)) t (Suc j) < column_sum (ept_loops rt t (1/2) (1/2)) t j"
proof -
  let ?E = "ept_loops rt t (1/2) (1/2)"
  have "(\<Sum>a\<le>j. ?E a j / (1 + rt a j)) < (\<Sum>a\<le>j. ?E a j)"
  proof (rule sum_strict_mono)
    show "finite {..j}" "{..j} \<noteq> {}" by auto
    fix a assume "a \<in> {..j}"
    then have a: "a \<le> j" by simp
    with assms have "0 < ?E a j" by (intro ept_half_positive) auto
    moreover from a assms have "0 < rt a j" by simp
    ultimately show "?E a j / (1 + rt a j) < ?E a j"
      by (simp add: field_simps)
  qed
  moreover have "column_sum ?E t (Suc j) = (\<Sum>a\<le>j. ?E a j / (1 + rt a j))"
    using assms(2) by (rule ept_half_next_sum)
  moreover have "column_sum ?E t j = (\<Sum>a\<le>j. ?E a j)"
    using assms(2) by (intro ept_column_sum_triangle) simp
  ultimately show ?thesis
    by simp
qed

lemma ept_half_bounds:
  assumes rates: "\<forall>a j. a \<le> j \<and> j < t \<longrightarrow> 0 < rt a j" and "j \<le> t"
  shows "0 < column_sum (ept_loops rt t (1/2) (1/2)) t j \<and> column_sum (ept_loops rt t (1/2) (1/2)) t j \<le> 1"
proof
  let ?E = "ept_loops rt t (1/2) (1/2)"
  have "0 < (\<Sum>a\<le>j. ?E a j)"
    using assms by (intro sum_pos ept_half_positive) auto
  with assms(2) show "0 < column_sum ?E t j"
    by (simp add: ept_column_sum_triangle)
  from assms(2) show "column_sum ?E t j \<le> 1"
  proof (induction j)
    case 0
    then show ?case by (simp add: ept_column_sum_triangle ept_loops_root)
  next
    case (Suc j)
    then have "j < t" by simp
    with rates have "column_sum ?E t (Suc j) < column_sum ?E t j"
      by (rule ept_half_decreasing)
    moreover from \<open>j < t\<close> have "column_sum ?E t j \<le> 1"
      by (intro Suc.IH) simp
    ultimately show ?case by simp
  qed
qed

lemma elementary_column_sums_half:
  assumes "0 < t" and "\<forall>a j. a \<le> j \<and> j < t \<longrightarrow> 0 < rates_tree r u d (t - 1) a j"
  shows "\<exists>ept. elementary_price_tree r u d t (1/2) (1/2) = Inr ept \<and>
           (\<forall>j<t. column_sum ept t (Suc j) < column_sum ept t j) \<and>
           (\<forall>j\<le>t. 0 < column_sum ept t j \<and> column_sum ept t j \<le> 1)"
  using assms ept_half_decreasing [OF assms(2)] ept_half_bounds [OF assms(2)]
  by (simp add: elementary_price_tree_def)

lemma elementary_column_sums_half_BDT:
  assumes "0 < t" "t \<le> length a" and "\<forall>j<t. 0 < a ! j"
  shows "\<exists>ept. elementary_price_tree_BDT a b t (1/2) = Inr ept \<and>
           (\<forall>j<t. column_sum ept t (Suc j) < column_sum ept t j) \<and>
           (\<forall>j\<le>t. 0 < column_sum ept t j \<and> column_sum ept t j \<le> 1)"
proof -
  define rt where "rt = (\<lambda>i j. fold (\<lambda>i rt. set_col rt i (\<lambda>k. a ! i * exp (b * real (i - k))))
                                 [0..<t - 1 + 1] zeros i j / 100)"
  have run: "rates_tree_BDT a b (t - 1) = Inr rt"
    unfolding rt_def using assms(1,2) by (simp add: rates_tree_BDT_def del: upt_Suc)
  have pos: "\<forall>i j. i \<le> j \<and> j < t \<longrightarrow> 0 < rt i j"
    unfolding rt_def using assms(1,3) by (simp add: bdt_fold_entries del: upt_Suc)
  have "elementary_price_tree_BDT a b t (1/2) = Inr (ept_loops rt t (1/2) (1/2))"
    using assms(1) run by (simp add: elementary_price_tree_BDT_def)
  with ept_half_decreasing [OF pos] ept_half_bounds [OF pos] show ?thesis
    by simp
qed

subsection \<open>Calibration\<close>

text \<open>
  C8, as the code has it. The script takes the vector \<^verbatim>\<open>res.x\<close> of the minimizer's result
  as the calibrated parameters whatever the result's success flag and message: changing
  the flag and the message of every result changes neither the parameters nor the prices
  computed from them.
\<close>

theorem optimal_a_whatever_success:
  "optimal_a minimize b t qu mr = res_x (minimize (\<lambda>a. objective a b t qu mr) (replicate t 5)) \<and>
   optimal_a (\<lambda>f a. (minimize f a)\<lparr>res_success := flag, res_message := msg\<rparr>) b t qu mr =
     optimal_a minimize b t qu mr \<and>
   script_zcb (\<lambda>f a. (minimize f a)\<lparr>res_success := flag, res_message := msg\<rparr>) b t qu face_value mr =
     script_zcb minimize b t qu face_value mr"
  by (simp add: script_zcb_def optimal_a_def res_def)

text \<open>
  A minimizer that reports failure: the script still has a parameter vector, the initial
  guess.
\<close>

theorem calibration_failed_counterexample:
  "res_success (res failing_minimize (1/200) 1 (1/2) [3/100]) = False \<and>
   optimal_a failing_minimize (1/200) 1 (1/2) [3/100] = [5]"
  by (simp add: optimal_a_def res_def failing_minimize_def)

subsection \<open>Market rates\<close>

lemma np_interp_first: "x \<le> x0 \<Longrightarrow> np_interp ((x0, y0) # ps) x = y0"
  by (cases ps) auto

lemma np_interp_skip:
  assumes "x0 < x" "ps \<noteq> []" "fst (hd ps) \<le> x"
  shows "np_interp ((x0, y0) # ps) x = np_interp ps x"
proof -
  from assms(2) obtain x1 y1 qs where ps: "ps = (x1, y1) # qs"
    by (cases ps) auto
  with assms show ?thesis by simp
qed

lemma np_interp_sample:
  assumes "sorted_wrt (<) (map fst (pre @ (xk, yk) # post))"
  shows "np_interp (pre @ (xk, yk) # post) xk = yk"
  using assms
proof (induction pre)
  case Nil
  show ?case by (simp add: np_interp_first)
next
  case (Cons p pre)
  obtain x0 y0 where p: "p = (x0, y0)" by (cases p)
  from Cons.prems have lt: "x0 < xk" and sorted: "sorted_wrt (<) (map fst (pre @ (xk, yk) # post))"
    by (auto simp add: p)
  have hd_le: "fst (hd (pre @ (xk, yk) # post)) \<le> xk"
  proof (cases pre)
    case Nil
    then show ?thesis by simp
  next
    case (Cons q qs)
    with sorted show ?thesis by (auto simp add: less_imp_le)
  qed
  have "np_interp (p # pre @ (xk, yk) # post) xk = np_interp (pre @ (xk, yk) # post) xk"
    unfolding p by (rule np_interp_skip) (use lt hd_le in auto)
  then show ?case
    using Cons.IH [OF sorted] by simp
qed

lemma np_interp_between:
  assumes "sorted_wrt (<) (map fst (pre @ (xl, yl) # (xh, yh) # post))" "xl < x" "x < xh"
  shows "np_interp (pre @ (xl, yl) # (xh, yh) # post) x = (yh - yl) / (xh - xl) * (x - xl) + yl"
  using assms(1)
proof (induction pre)
  case Nil
  show ?case using assms(2,3) by simp
next
  case (Cons p pre)
  obtain x0 y0 where p: "p = (x0, y0)" by (cases p)
  from Cons.prems have lt: "x0 < xl" and sorted: "sorted_wrt (<) (map fst (pre @ (xl, yl) # (xh, yh) # post))"
    by (auto simp add: p)
  have hd_le: "fst (hd (pre @ (xl, yl) # (xh, yh) # post)) \<le> x"
  proof (cases pre)
    case Nil
    then show ?thesis using assms(2) by simp
  next
    case (Cons q qs)
    with sorted have "fst q < xl" by auto
    with Cons assms(2) show ?thesis by simp
  qed
  have "np_interp (p # pre @ (xl, yl) # (xh, yh) # post) x = np_interp (pre @ (xl, yl) # (xh, yh) # post) x"
    unfolding p by (rule np_interp_skip) (use lt assms(2) hd_le in auto)
  then show ?case
    using Cons.IH [OF sorted] by simp
qed

lemma np_interp_beyond:
  assumes "ps \<noteq> []" "sorted_wrt (<) (map fst ps)" "fst (last ps) \<le> x"
  shows "np_interp ps x = snd (last ps)"
  using assms
proof (induction ps x rule: np_interp.induct)
  case (1 x)
  then show ?case by simp
next
  case (2 x0 y0 x)
  show ?case by simp
next
  case (3 x0 y0 x1 y1 ps x)
  from "3.prems" have sorted: "sorted_wrt (<) (map fst ((x1, y1) # ps))" and x01: "x0 < x1"
    by auto
  have "x1 \<le> fst (last ((x1, y1) # ps))"
  proof (cases ps)
    case Nil
    then show ?thesis by simp
  next
    case (Cons q qs)
    then have "last ((x1, y1) # ps) \<in> set ps" by simp
    with sorted show ?thesis by (auto simp add: less_imp_le)
  qed
  with "3.prems" have x1: "x1 \<le> x" by simp
  with x01 have "np_interp ((x0, y0) # (x1, y1) # ps) x = np_interp ((x1, y1) # ps) x"
    by simp
  also have "\<dots> = snd (last ((x1, y1) # ps))"
    using x01 x1 sorted "3.prems" by (intro "3.IH") auto
  finally show ?case by simp
qed

lemma filter_years: 
  assumes "t \<le> 30"
  shows "filter (\<lambda>x. x \<le> t) [1..<31] = [1..<t + 1]"
proof -
  have "[1..<31] = [1..<(t + 1) + (30 - t)]"
    using assms by simp
  also have "\<dots> = [1..<t + 1] @ [t + 1..<(t + 1) + (30 - t)]"
    by (rule upt_add_eq_append) simp
  finally have "filter (\<lambda>x. x \<le> t) [1..<31] =
      filter (\<lambda>x. x \<le> t) [1..<t + 1] @ filter (\<lambda>x. x \<le> t) [t + 1..<(t + 1) + (30 - t)]"
    by (simp only: filter_append)
  also have "filter (\<lambda>x. x \<le> t) [1..<t + 1] = [1..<t + 1]"
    by (rule filter_True) auto
  also have "filter (\<lambda>x. x \<le> t) [t + 1..<(t + 1) + (30 - t)] = []"
    by (rule filter_False) auto
  finally show ?thesis by simp
qed

lemma tenors_sorted: "sorted_wrt (<) fred_yield_yrs"
  by (simp add: fred_yield_yrs_def)

lemma pts_sorted:
  assumes "sorted_wrt (<) (xs :: nat list)"
  shows "sorted_wrt (<) (map fst (map (\<lambda>x. (real x, f x)) xs))"
  using assms by (simp add: sorted_wrt_map o_def)

lemma zip_pts: "zip (map real xs) (map f xs) = map (\<lambda>x. (real x, f x)) xs"
  by (induction xs) auto

lemma consecutive_split:
  assumes "(a, b) \<in> set (zip xs (tl xs))"
  shows "\<exists>pre post. xs = pre @ a # b # post"
  using assms
proof (induction xs)
  case Nil
  then show ?case by simp
next
  case (Cons x xs)
  show ?case
  proof (cases xs)
    case Nil
    with Cons.prems show ?thesis by simp
  next
    case (Cons y ys)
    show ?thesis
    proof (cases "(a, b) = (x, y)")
      case True
      with Cons have "x # xs = [] @ a # b # ys" by simp
      then show ?thesis by blast
    next
      case False
      with Cons Cons.prems have "(a, b) \<in> set (zip xs (tl xs))" by auto
      from Cons.IH [OF this] obtain pre post where "xs = pre @ a # b # post" by blast
      then have "x # xs = (x # pre) @ a # b # post" by simp
      then show ?thesis by blast
    qed
  qed
qed

lemma filter_keeps_prefix:
  assumes "sorted_wrt (<) (pre @ a # b # post)" "b \<le> (t::nat)"
  shows "filter (\<lambda>x. x \<le> t) (pre @ a # b # post) = pre @ a # b # filter (\<lambda>x. x \<le> t) post"
proof -
  from assms have "\<forall>x \<in> set pre. x \<le> t" "a \<le> t"
    by (auto simp add: sorted_wrt_append)
  then have "filter (\<lambda>x. x \<le> t) pre = pre"
    by (intro filter_True) auto
  with \<open>a \<le> t\<close> assms(2) show ?thesis by simp
qed

lemma load_market_rates_dense:
  assumes t: "1 \<le> t" "t \<le> 30"
    and distinct: "\<forall>x \<in> set fred_yield_yrs. \<forall>y \<in> {1..t}. x \<le> t \<longrightarrow> fred x \<noteq> real y"
  shows "load_market_rates fred t =
           Inr (map (\<lambda>y. np_interp (map (\<lambda>x. (real x, fred x)) (filter (\<lambda>x. x \<le> t) fred_yield_yrs)) (real y))
                  [1..<t + 1])"
proof -
  let ?xs = "filter (\<lambda>x. x \<le> t) fred_yield_yrs"
  have "1 \<in> set ?xs"
    using t by (simp add: fred_yield_yrs_def)
  then have nonempty: "?xs \<noteq> []"
    by (metis empty_iff list.set(1))
  have "filter (\<lambda>x. real x \<notin> set (map fred ?xs) \<and> x \<le> t) [1..<31] = filter (\<lambda>x. x \<le> t) [1..<31]"
  proof (rule filter_cong [OF refl])
    fix y assume "y \<in> set [1..<31]"
    then have "1 \<le> y" by simp
    show "(real y \<notin> set (map fred ?xs) \<and> y \<le> t) = (y \<le> t)"
    proof (cases "y \<le> t")
      case True
      with \<open>1 \<le> y\<close> have "y \<in> {1..t}" by simp
      with distinct have "\<forall>x \<in> set ?xs. fred x \<noteq> real y" by auto
      then have "real y \<notin> set (map fred ?xs)" by auto
      with True show ?thesis by simp
    next
      case False
      then show ?thesis by simp
    qed
  qed
  also have "\<dots> = [1..<t + 1]"
    using t(2) by (rule filter_years)
  finally have years: "filter (\<lambda>x. real x \<notin> set (map fred ?xs) \<and> x \<le> t) [1..<31] = [1..<t + 1]" .
  show ?thesis
    unfolding load_market_rates_def Let_def years zip_pts
    using nonempty by simp
qed

text \<open>
  C9, as the code has it. For \<open>1 \<le> t \<le> 30\<close>, when no observed yield of a tenor up to \<open>t\<close>
  equals a whole year of \<open>1..t\<close>, the curve has one yield per year \<open>1..t\<close>: a year that is
  an observed tenor has that tenor's yield, a year strictly between two neighbouring
  tenors up to \<open>t\<close> has their linear interpolation, and a year above the largest tenor up
  to \<open>t\<close> has the yield of that tenor.
\<close>

theorem load_market_rates_curve:
  assumes t: "1 \<le> t" "t \<le> 30"
    and distinct: "\<forall>x \<in> set fred_yield_yrs. \<forall>y \<in> {1..t}. x \<le> t \<longrightarrow> fred x \<noteq> real y"
  shows "\<exists>ys. load_market_rates fred t = Inr ys \<and> length ys = t \<and>
           (\<forall>y. 1 \<le> y \<and> y \<le> t \<longrightarrow>
              (y \<in> set fred_yield_yrs \<longrightarrow> ys ! (y - 1) = fred y) \<and>
              (\<forall>lo hi. (lo, hi) \<in> set (zip fred_yield_yrs (tl fred_yield_yrs)) \<and> lo < y \<and> y < hi \<and> hi \<le> t \<longrightarrow>
                 ys ! (y - 1) = (fred hi - fred lo) / (real hi - real lo) * (real y - real lo) + fred lo) \<and>
              (\<forall>m. m \<in> set fred_yield_yrs \<and> m \<le> t \<and> (\<forall>x \<in> set fred_yield_yrs. x \<le> t \<longrightarrow> x \<le> m) \<and> m < y \<longrightarrow>
                 ys ! (y - 1) = fred m))"
proof -
  let ?xs = "filter (\<lambda>x. x \<le> t) fred_yield_yrs"
  let ?pts = "map (\<lambda>x. (real x, fred x)) ?xs"
  let ?ys = "map (\<lambda>y. np_interp ?pts (real y)) [1..<t + 1]"
  have run: "load_market_rates fred t = Inr ?ys"
    using assms by (rule load_market_rates_dense)
  have len: "length ?ys = t"
    by simp
  have sorted_xs: "sorted_wrt (<) ?xs"
    using tenors_sorted by (rule sorted_wrt_filter)
  have nth: "?ys ! (y - 1) = np_interp ?pts (real y)" if "1 \<le> y" "y \<le> t" for y
  proof -
    from that have "y - 1 < length [1..<t + 1]" by simp
    then have "?ys ! (y - 1) = np_interp ?pts (real ([1..<t + 1] ! (y - 1)))"
      by (rule nth_map)
    also have "[1..<t + 1] ! (y - 1) = 1 + (y - 1)"
      using that by (intro nth_upt) simp
    also have "1 + (y - 1) = y"
      using that by simp
    finally show ?thesis .
  qed
  have sample: "np_interp ?pts (real y) = fred y" if "y \<in> set fred_yield_yrs" "y \<le> t" for y
  proof -
    from that have "y \<in> set ?xs" by simp
    then obtain pre post where split: "?xs = pre @ y # post"
      using split_list by fastforce
    have "sorted_wrt (<) (map fst ?pts)"
      using sorted_xs by (rule pts_sorted)
    then have "sorted_wrt (<) (map fst (map (\<lambda>x. (real x, fred x)) pre @ (real y, fred y) # map (\<lambda>x. (real x, fred x)) post))"
      unfolding split by simp
    then have "np_interp (map (\<lambda>x. (real x, fred x)) pre @ (real y, fred y) # map (\<lambda>x. (real x, fred x)) post) (real y) = fred y"
      by (rule np_interp_sample)
    then show ?thesis
      unfolding split by simp
  qed
  have between: "np_interp ?pts (real y) = (fred hi - fred lo) / (real hi - real lo) * (real y - real lo) + fred lo"
    if "(lo, hi) \<in> set (zip fred_yield_yrs (tl fred_yield_yrs))" "lo < y" "y < hi" "hi \<le> t" for y lo hi
  proof -
    from consecutive_split [OF that(1)]
    obtain pre post where yrs: "fred_yield_yrs = pre @ lo # hi # post"
      by (elim exE)
    have "sorted_wrt (<) (pre @ lo # hi # post)"
      using tenors_sorted unfolding yrs .
    then have split: "?xs = pre @ lo # hi # filter (\<lambda>x. x \<le> t) post"
      unfolding yrs using that(4) by (rule filter_keeps_prefix)
    let ?post = "map (\<lambda>x. (real x, fred x)) (filter (\<lambda>x. x \<le> t) post)"
    have "sorted_wrt (<) (map fst ?pts)"
      using sorted_xs by (rule pts_sorted)
    then have "sorted_wrt (<) (map fst (map (\<lambda>x. (real x, fred x)) pre @ (real lo, fred lo) # (real hi, fred hi) # ?post))"
      unfolding split by simp
    then have "np_interp (map (\<lambda>x. (real x, fred x)) pre @ (real lo, fred lo) # (real hi, fred hi) # ?post) (real y) =
               (fred hi - fred lo) / (real hi - real lo) * (real y - real lo) + fred lo"
      by (rule np_interp_between) (use that in simp_all)
    then show ?thesis
      unfolding split by simp
  qed
  have beyond: "np_interp ?pts (real y) = fred m"
    if "m \<in> set fred_yield_yrs" "m \<le> t" "\<forall>x \<in> set fred_yield_yrs. x \<le> t \<longrightarrow> x \<le> m" "m < y" for y m
  proof -
    from that have m_in: "m \<in> set ?xs" by simp
    then have nonempty: "?xs \<noteq> []"
      by (metis empty_iff list.set(1))
    have "last ?xs \<in> set ?xs"
      using nonempty by (rule last_in_set)
    with that(3) have "last ?xs \<le> m" by simp
    with \<open>m < y\<close> have le: "last ?xs \<le> y" by simp
    have "last ?xs = m"
    proof (rule ccontr)
      assume neq: "last ?xs \<noteq> m"
      from nonempty have "?xs = butlast ?xs @ [last ?xs]" by simp
      with m_in neq have "m \<in> set (butlast ?xs)"
        by (metis Un_iff empty_iff insert_iff list.set(1) list.set(2) set_append)
      moreover have "sorted_wrt (<) (butlast ?xs @ [last ?xs])"
        using sorted_xs nonempty by simp
      ultimately have "m < last ?xs"
        by (simp add: sorted_wrt_append)
      with \<open>last ?xs \<le> m\<close> show False by simp
    qed
    have "np_interp ?pts (real y) = snd (last ?pts)"
    proof (rule np_interp_beyond)
      show "?pts \<noteq> []" using nonempty by simp
      show "sorted_wrt (<) (map fst ?pts)" using sorted_xs by (rule pts_sorted)
      show "fst (last ?pts) \<le> real y" using nonempty le by (simp add: last_map)
    qed
    also have "\<dots> = fred (last ?xs)"
      using nonempty by (simp add: last_map)
    finally show ?thesis
      unfolding \<open>last ?xs = m\<close> .
  qed
  have "(y \<in> set fred_yield_yrs \<longrightarrow> ?ys ! (y - 1) = fred y) \<and>
        (\<forall>lo hi. (lo, hi) \<in> set (zip fred_yield_yrs (tl fred_yield_yrs)) \<and> lo < y \<and> y < hi \<and> hi \<le> t \<longrightarrow>
           ?ys ! (y - 1) = (fred hi - fred lo) / (real hi - real lo) * (real y - real lo) + fred lo) \<and>
        (\<forall>m. m \<in> set fred_yield_yrs \<and> m \<le> t \<and> (\<forall>x \<in> set fred_yield_yrs. x \<le> t \<longrightarrow> x \<le> m) \<and> m < y \<longrightarrow>
           ?ys ! (y - 1) = fred m)"
    if y: "1 \<le> y \<and> y \<le> t" for y
  proof -
    from y have eq: "?ys ! (y - 1) = np_interp ?pts (real y)"
      by (intro nth) auto
    show ?thesis
      unfolding eq using y sample between beyond by blast
  qed
  with run len show ?thesis
    by blast
qed

theorem load_market_rates_curve_witness:
  "\<exists>ys. load_market_rates sample_yields 4 = Inr ys \<and> length ys = 4 \<and>
           (\<forall>y. 1 \<le> y \<and> y \<le> 4 \<longrightarrow>
              (y \<in> set fred_yield_yrs \<longrightarrow> ys ! (y - 1) = sample_yields y) \<and>
              (\<forall>lo hi. (lo, hi) \<in> set (zip fred_yield_yrs (tl fred_yield_yrs)) \<and> lo < y \<and> y < hi \<and> hi \<le> 4 \<longrightarrow>
                 ys ! (y - 1) = (sample_yields hi - sample_yields lo) / (real hi - real lo) * (real y - real lo) + sample_yields lo) \<and>
              (\<forall>m. m \<in> set fred_yield_yrs \<and> m \<le> 4 \<and> (\<forall>x \<in> set fred_yield_yrs. x \<le> 4 \<longrightarrow> x \<le> m) \<and> m < y \<longrightarrow>
                 ys ! (y - 1) = sample_yields m))"
proof (rule load_market_rates_curve)
  show "1 \<le> (4::nat)" "(4::nat) \<le> 30" by simp_all
  show "\<forall>x \<in> set fred_yield_yrs. \<forall>y \<in> {1..4}. x \<le> 4 \<longrightarrow> sample_yields x \<noteq> real y"
  proof (intro ballI impI)
    fix x y :: nat
    assume "x \<in> set fred_yield_yrs" "y \<in> {1..4}" "x \<le> 4"
    then have "real x / 40 < 1" "1 \<le> real y" by simp_all
    then show "sample_yields x \<noteq> real y"
      by (simp add: sample_yields_def)
  qed
qed

text \<open>
  With \<open>t = 4\<close> the year 4 lies above the largest observed tenor 3 and takes its yield
  \<open>3/40\<close>; the interpolation between the tenors 3 and 5 would be \<open>1/10\<close>.
\<close>

theorem load_market_rates_counterexample:
  "load_market_rates sample_yields 4 = Inr [1 / 40, 1 / 20, 3 / 40, 3 / 40] \<and>
   (sample_yields 5 - sample_yields 3) / (real 5 - real 3) * (real 4 - real 3) + sample_yields 3 = 1 / 10"
  by (simp add: load_market_rates_def fred_yield_yrs_def sample_yields_def upt_rec)

text \<open>
  On a flat curve at 3 percent the year 3 equals a yield and is left out: the curve for
  \<open>t = 5\<close> has four entries.
\<close>

lemma load_market_rates_drops_years:
  "load_market_rates flat_yields 5 = Inr [3, 3, 3, 3]"
  by (simp add: load_market_rates_def fred_yield_yrs_def flat_yields_def upt_rec)

end
